theory Spec2Isabelle
  imports Complex_Main "HOL-Library.Word"
begin

unbundle bit_operations_syntax

section \<open>The NMEA 2000 / SeaTalk autopilot bridge (autopilotcontroller.ino)\<close>

text \<open>
  A shallow embedding of the protocol core of \<^verbatim>\<open>src/autopilotcontroller.ino\<close>: the
  29-bit identifier codec, the fast-packet sender, the command-group reassembler, the
  pilot state machine and the SeaTalk datagram encoders.  Machine integers are words of
  the width the source declares; the global variables of the sketch are the fields of
  one record that every function takes and returns.
\<close>

type_synonym u8 = "8 word"
type_synonym u16 = "16 word"
type_synonym u32 = "32 word"
type_synonym u64 = "64 word"

subsection \<open>Constants of the sketch\<close>

definition PGN_ADDR_CLAIM :: u32 where "PGN_ADDR_CLAIM = 60928"
definition PGN_ISO_REQUEST :: u32 where "PGN_ISO_REQUEST = 59904"
definition PGN_CMD_GROUP :: u32 where "PGN_CMD_GROUP = 126208"
definition PGN_PGN_LIST :: u32 where "PGN_PGN_LIST = 126464"
definition PGN_PRODUCT_INFO :: u32 where "PGN_PRODUCT_INFO = 126996"
definition PGN_CONFIG_INFO :: u32 where "PGN_CONFIG_INFO = 126998"
definition PGN_AP_STATUS :: u32 where "PGN_AP_STATUS = 127237"
definition PGN_VESSEL_HEAD :: u32 where "PGN_VESSEL_HEAD = 127250"
definition PGN_STW :: u32 where "PGN_STW = 128259"
definition PGN_COGSOG :: u32 where "PGN_COGSOG = 129026"
definition PGN_XTE :: u32 where "PGN_XTE = 129283"
definition PGN_NAVDATA :: u32 where "PGN_NAVDATA = 129284"
definition PGN_ROUTE_WP :: u32 where "PGN_ROUTE_WP = 129285"
definition PGN_WIND :: u32 where "PGN_WIND = 130306"
definition PGN_RM_PILOT_MODE :: u32 where "PGN_RM_PILOT_MODE = 65379"
definition PGN_RM_LOCKED_HEADING :: u32 where "PGN_RM_LOCKED_HEADING = 65360"
definition PGN_RM_KEYPAD_HEART :: u32 where "PGN_RM_KEYPAD_HEART = 65374"

definition SA :: u8 where "SA = 33"

lemmas pgn_defs =
  PGN_ADDR_CLAIM_def PGN_ISO_REQUEST_def PGN_CMD_GROUP_def PGN_PGN_LIST_def
  PGN_PRODUCT_INFO_def PGN_CONFIG_INFO_def PGN_AP_STATUS_def PGN_VESSEL_HEAD_def
  PGN_STW_def PGN_COGSOG_def PGN_XTE_def PGN_NAVDATA_def PGN_ROUTE_WP_def PGN_WIND_def
  PGN_RM_PILOT_MODE_def PGN_RM_LOCKED_HEADING_def PGN_RM_KEYPAD_HEART_def

subsection \<open>Bus frames and the 29-bit identifier\<close>

text \<open>
  \<^verbatim>\<open>twai_message_t\<close> as far as the sketch uses it: the identifier, the extended-format
  flag, the data length code and the eight data bytes.
\<close>

record twai_message_t =
  identifier' :: u32
  extd :: bool
  data_length_code :: u8
  data :: "u8 list"

text \<open>
  \<^verbatim>\<open>n2k_id(prio, pgn, src)\<close>: the encoder takes no destination; a PDU1 identifier
  (format byte below 240) always carries \<^verbatim>\<open>0xFF\<close> in the PDU-specific byte.
\<close>

definition n2k_id :: "u8 \<Rightarrow> u32 \<Rightarrow> u8 \<Rightarrow> u32" where
  "n2k_id prio pgn src =
    (let PF = drop_bit 8 pgn AND 0xFF;
         PDU_SPEC = (if PF < 240 then 0xFF else pgn AND 0xFF);
         DP = drop_bit 16 pgn AND 0x01
     in push_bit 26 (ucast (prio AND 7)) OR push_bit 24 DP OR push_bit 16 PF
        OR push_bit 8 PDU_SPEC OR ucast src)"

definition extractPGN :: "twai_message_t \<Rightarrow> u32" where
  "extractPGN m =
    (let ident = identifier' m;
         PF = (ucast (drop_bit 16 ident AND 0xFF) :: u8);
         DP = (ucast (drop_bit 24 ident AND 0x01) :: u8);
         PDU_SPEC = (ucast (drop_bit 8 ident AND 0xFF) :: u8)
     in if PF < 240 then push_bit 16 (ucast DP) OR push_bit 8 (ucast PF)
        else push_bit 16 (ucast DP) OR push_bit 8 (ucast PF) OR ucast PDU_SPEC)"

text \<open>
  \<^verbatim>\<open>twai_tx(id, data, len)\<close> builds a zeroed extended frame and copies \<^verbatim>\<open>len\<close> bytes
  into it.  The model's result is the frame handed to the driver.
\<close>

definition twai_tx :: "u32 \<Rightarrow> u8 list \<Rightarrow> u8 \<Rightarrow> twai_message_t" where
  "twai_tx ident d len =
    \<lparr>identifier' = ident, extd = True, data_length_code = len,
     data = take (unat len) d @ replicate (8 - unat len) 0\<rparr>"

definition n2k_send_single :: "u32 \<Rightarrow> u8 list \<Rightarrow> u8 \<Rightarrow> u8 \<Rightarrow> twai_message_t list" where
  "n2k_send_single pgn payload len prio = [twai_tx (n2k_id prio pgn SA) payload len]"

text \<open>
  The readers of a received identifier.  The source address is read as \<^verbatim>\<open>loop()\<close> does
  (\<^verbatim>\<open>m.identifier & 0xFF\<close>).
\<close>

definition id_source :: "u32 \<Rightarrow> u8" where
  "id_source ident = ucast (ident AND 0xFF)"

text \<open>
  Modelled from the spec: the priority and destination readers of \<^verbatim>\<open>decodeIdentifier\<close>.
  The sketch never reads the priority or the destination of a received identifier; the
  readers below take the three bits the encoder writes at bit 26, and the PDU-specific
  byte of a PDU1 identifier (a PDU2 identifier is reported as broadcast).
\<close>

definition id_priority :: "u32 \<Rightarrow> u8" where
  "id_priority ident = ucast (drop_bit 26 ident AND 7)"

datatype destination = Broadcast | Addr u8

definition id_destination :: "u32 \<Rightarrow> destination" where
  "id_destination ident =
    (if (ucast (drop_bit 16 ident AND 0xFF) :: u8) < 240
     then Addr (ucast (drop_bit 8 ident AND 0xFF)) else Broadcast)"

definition decodeIdentifier :: "u32 \<Rightarrow> u8 \<times> u32 \<times> u8 \<times> destination" where
  "decodeIdentifier ident =
    (id_priority ident,
     extractPGN \<lparr>identifier' = ident, extd = True, data_length_code = 0, data = []\<rparr>,
     id_source ident, id_destination ident)"

subsection \<open>Fast-packet transmission\<close>

text \<open>
  \<^verbatim>\<open>n2k_send_fast(pgn, payload, len, prio)\<close>.  The sequence id is read from the millisecond
  clock, here the parameter \<open>now\<close>.  The first frame carries the sequence id with index 0,
  the length byte and up to six payload bytes; the loop sends seven bytes per frame, the
  five-bit index counting up from 1.  Every frame is first filled with \<^verbatim>\<open>0xFF\<close>.  The
  counter \<^verbatim>\<open>sent\<close> never exceeds \<^verbatim>\<open>len\<close>, so it is a natural number here; the delay
  between frames is not modelled.
\<close>

definition fp_chunk :: "nat \<Rightarrow> nat \<Rightarrow> nat" where
  "fp_chunk len sent = (if len - sent > 7 then 7 else len - sent)"

function n2k_send_fast_loop ::
  "u32 \<Rightarrow> u8 \<Rightarrow> u8 list \<Rightarrow> nat \<Rightarrow> nat \<Rightarrow> u8 \<Rightarrow> twai_message_t list" where
  "n2k_send_fast_loop ident sq payload len sent idx =
     (if sent < len then
        twai_tx ident
          ((push_bit 5 sq OR (idx AND 0x1F)) #
            take (fp_chunk len sent) (drop sent payload) @
            replicate (7 - fp_chunk len sent) 0xFF) 8
        # n2k_send_fast_loop ident sq payload len (sent + fp_chunk len sent) (idx + 1)
      else [])"
  by pat_completeness auto
termination
  by (relation "measure (\<lambda>(ident, sq, payload, len, sent, idx). len - sent)")
    (auto simp: fp_chunk_def)

declare n2k_send_fast_loop.simps [simp del]

definition n2k_send_fast :: "u32 \<Rightarrow> u32 \<Rightarrow> u8 list \<Rightarrow> u16 \<Rightarrow> u8 \<Rightarrow> twai_message_t list" where
  "n2k_send_fast now pgn payload len prio =
    (let sq = (ucast (drop_bit 5 now AND 0x07) :: u8);
         ident = n2k_id prio pgn SA;
         take0 = (if len > 6 then 6 else unat len);
         f = [push_bit 5 sq OR 0, ucast len] @ take take0 payload @ replicate (6 - take0) 0xFF
     in twai_tx ident f 8 # n2k_send_fast_loop ident sq payload (unat len) take0 1)"

subsection \<open>The command-group reassembler\<close>

text \<open>
  \<^verbatim>\<open>struct FPBuf\<close> and its single instance \<^verbatim>\<open>grp\<close>.  \<^verbatim>\<open>gf_reset\<close> assigns a
  value-initialised struct: the default member initialisers, and a zeroed buffer.
\<close>

record FPBuf =
  active :: bool
  sa :: u8
  seq :: u8
  total' :: u8
  next' :: u8
  filled :: u8
  buf :: "u8 list"

definition gf_reset :: FPBuf where
  "gf_reset = \<lparr>active = False, sa = 0xFF, seq = 0xFF, total' = 0, next' = 0, filled = 0,
     buf = replicate 120 0\<rparr>"

text \<open>
  \<^verbatim>\<open>memcpy(dst + off, src, n)\<close> on a destination array held as a list.  The equation is
  the C behaviour for a copy that stays inside both arrays; the reassembler below also
  reports the offset and count of the copy it asks for, so that the bounds can be stated.
\<close>

definition memcpy :: "u8 list \<Rightarrow> int \<Rightarrow> u8 list \<Rightarrow> int \<Rightarrow> u8 list" where
  "memcpy dst off src n = take (nat off) dst @ take (nat n) src @ drop (nat off + nat n) dst"

text \<open>
  The buffer part of \<^verbatim>\<open>feed_126208(sa, d, n)\<close>: the new value of \<^verbatim>\<open>grp\<close>, the completed
  command handed to \<^verbatim>\<open>handle_126208_full(grp.buf, grp.total)\<close> if the call makes one, and
  the \<^verbatim>\<open>memcpy\<close> into \<^verbatim>\<open>grp.buf\<close> the call performs (destination offset and byte
  count).  \<open>d\<close> is the frame's data array and \<open>n\<close> its data length code.
\<close>

record feed_result =
  new_grp :: FPBuf
  delivered :: "u8 list option"
  copied :: "(int \<times> int) option"

definition feed_126208_grp :: "FPBuf \<Rightarrow> u8 \<Rightarrow> u8 list \<Rightarrow> int \<Rightarrow> feed_result" where
  "feed_126208_grp g sa_in d n =
    (if n < 2 then \<lparr>new_grp = g, delivered = None, copied = None\<rparr>
     else
       let fi = (d ! 0) AND 0x1F; sq = drop_bit 5 (d ! 0) AND 0x07 in
       if fi = 0 then
         (let g1 = gf_reset\<lparr>active := True, sa := sa_in, seq := sq, next' := 1, filled := 0,
                    total' := d ! 1\<rparr>
          in if unat (total' g1) > 120
             then \<lparr>new_grp = gf_reset, delivered = None, copied = None\<rparr>
             else
               let tk = min 6 (uint (total' g1));
                   g2 = g1\<lparr>buf := memcpy (buf g1) 0 (drop 2 d) tk, filled := word_of_int tk\<rparr>
               in if filled g2 \<ge> total' g2
                  then \<lparr>new_grp = gf_reset,
                        delivered = Some (take (unat (total' g2)) (buf g2)),
                        copied = Some (0, tk)\<rparr>
                  else \<lparr>new_grp = g2, delivered = None, copied = Some (0, tk)\<rparr>)
       else if active g \<and> sa g = sa_in \<and> seq g = sq \<and> fi = next' g then
         (let g1 = g\<lparr>next' := next' g + 1\<rparr>;
              remain = uint (total' g1) - uint (filled g1);
              tk = min 7 remain;
              g2 = g1\<lparr>buf := memcpy (buf g1) (uint (filled g1)) (drop 1 d) tk,
                      filled := filled g1 + word_of_int tk\<rparr>
          in if filled g2 \<ge> total' g2
             then \<lparr>new_grp = gf_reset,
                   delivered = Some (take (unat (total' g2)) (buf g2)),
                   copied = Some (uint (filled g1), tk)\<rparr>
             else \<lparr>new_grp = g2, delivered = None, copied = Some (uint (filled g1), tk)\<rparr>)
       else \<lparr>new_grp = gf_reset, delivered = None, copied = None\<rparr>)"

text \<open>
  Feeding a sequence of received frames to the reassembler, as \<^verbatim>\<open>loop()\<close> does one frame
  at a time (source address \<^verbatim>\<open>m.identifier & 0xFF\<close>, data and data length code of the
  frame): the list of completed commands, in order.
\<close>

fun reassemble :: "FPBuf \<Rightarrow> twai_message_t list \<Rightarrow> u8 list list" where
  "reassemble g [] = []"
| "reassemble g (m # ms) =
     (let r = feed_126208_grp g (id_source (identifier' m)) (data m)
                (uint (data_length_code m))
      in (case delivered r of None \<Rightarrow> [] | Some p \<Rightarrow> [p]) @ reassemble (new_grp r) ms)"


subsection \<open>Reachable states of the reassembler\<close>

text \<open>
  The value of \<^verbatim>\<open>grp\<close> after a sequence of received frames, and the numeric invariant
  that every such value satisfies: the fill count does not exceed the declared total,
  the total does not exceed the buffer, and an active assembly is not yet complete.
\<close>

fun feed_frames :: "FPBuf \<Rightarrow> twai_message_t list \<Rightarrow> FPBuf" where
  "feed_frames g [] = g"
| "feed_frames g (m # ms) =
     feed_frames (new_grp (feed_126208_grp g (id_source (identifier' m)) (data m)
        (uint (data_length_code m)))) ms"

definition fp_inv :: "FPBuf \<Rightarrow> bool" where
  "fp_inv g \<longleftrightarrow>
     uint (filled g) \<le> uint (total' g) \<and> uint (total' g) \<le> 120 \<and>
     (if active g then uint (filled g) < uint (total' g) else True)"

subsection \<open>A frame sequence with one skipped index\<close>

text \<open>
  The faulty sequence of the round-trip claim: the frame at position \<open>k\<close> carries its
  five-bit frame index incremented once more (so it is the previous index plus 2); the
  sequence id in the upper three bits and all other frames are unchanged.
\<close>

definition bump_index :: "twai_message_t \<Rightarrow> twai_message_t" where
  "bump_index m =
     m\<lparr>data := (data m)[0 := ((data m ! 0) AND 0xE0) OR (((data m ! 0) + 1) AND 0x1F)]\<rparr>"

definition skip_index :: "nat \<Rightarrow> twai_message_t list \<Rightarrow> twai_message_t list" where
  "skip_index k ms = ms[k := bump_index (ms ! k)]"

subsection \<open>Single-precision floating point\<close>

text \<open>
  The sketch computes in C \<^verbatim>\<open>float\<close>: IEEE 754 binary32 with round to nearest, ties to
  even.  A value is not-a-number, an infinity, or a finite rational number that binary32
  represents.  The sign of a zero is not represented: the sketch never divides by a
  computed value, and no other operation it uses tells \<^verbatim>\<open>-0.0\<close> from \<^verbatim>\<open>0.0\<close>.

  \<open>f32_round\<close> rounds a rational to the nearest binary32 value: the unit in the last
  place of \<open>x\<close> is \<open>2 ^ (e - 23)\<close> for the binary exponent \<open>e\<close> of \<open>x\<close>, and not less than
  \<open>2 ^ - 149\<close> (the subnormal range).  \<open>f32\<close> adds the overflow to infinity.
\<close>

datatype float32 = NaN | PInf | MInf | Fin rat

function bitlen :: "int \<Rightarrow> nat" where
  "bitlen n = (if n \<le> 0 then 0 else Suc (bitlen (n div 2)))"
  by pat_completeness auto
termination
  by (relation "measure nat") auto

declare bitlen.simps [simp del]

definition rne :: "rat \<Rightarrow> int" where
  "rne y =
    (let f = \<lfloor>y\<rfloor>; r = y - of_int f
     in if r < 1 / 2 then f else if 1 / 2 < r then f + 1 else if even f then f else f + 1)"

definition f32_ulp :: "rat \<Rightarrow> rat" where
  "f32_ulp x = 2 ^ (bitlen \<lfloor>\<bar>x\<bar> * 2 ^ 149\<rfloor> - 24) / 2 ^ 149"

definition f32_round :: "rat \<Rightarrow> rat" where
  "f32_round x = of_int (rne (x / f32_ulp x)) * f32_ulp x"

definition FLT_MAX :: rat where
  "FLT_MAX = (2 ^ 24 - 1) * 2 ^ 104"

definition f32 :: "rat \<Rightarrow> float32" where
  "f32 x =
    (let r = f32_round x
     in if FLT_MAX < r then PInf else if r < - FLT_MAX then MInf else Fin r)"

definition isnan :: "float32 \<Rightarrow> bool" where
  "isnan x = (x = NaN)"

definition isfinite :: "float32 \<Rightarrow> bool" where
  "isfinite x = (case x of Fin a \<Rightarrow> True | _ \<Rightarrow> False)"

text \<open>The sign of a value that is not NaN, and the infinity of a sign.\<close>

fun fsgn :: "float32 \<Rightarrow> int" where
  "fsgn (Fin a) = (if a < 0 then - 1 else if a = 0 then 0 else 1)"
| "fsgn PInf = 1"
| "fsgn MInf = - 1"
| "fsgn NaN = 0"

definition finf :: "int \<Rightarrow> float32" where
  "finf s = (if 0 < s then PInf else MInf)"

fun fneg :: "float32 \<Rightarrow> float32" where
  "fneg (Fin a) = Fin (- a)"
| "fneg PInf = MInf"
| "fneg MInf = PInf"
| "fneg NaN = NaN"

fun fadd :: "float32 \<Rightarrow> float32 \<Rightarrow> float32" where
  "fadd NaN y = NaN"
| "fadd x NaN = NaN"
| "fadd (Fin a) (Fin b) = f32 (a + b)"
| "fadd PInf MInf = NaN"
| "fadd MInf PInf = NaN"
| "fadd PInf y = PInf"
| "fadd x PInf = PInf"
| "fadd MInf y = MInf"
| "fadd x MInf = MInf"

definition fsub :: "float32 \<Rightarrow> float32 \<Rightarrow> float32" where
  "fsub x y = fadd x (fneg y)"

fun fmul :: "float32 \<Rightarrow> float32 \<Rightarrow> float32" where
  "fmul NaN y = NaN"
| "fmul x NaN = NaN"
| "fmul (Fin a) (Fin b) = f32 (a * b)"
| "fmul x y = (if fsgn x * fsgn y = 0 then NaN else finf (fsgn x * fsgn y))"

text \<open>
  Division.  A finite value divided by zero is an infinity whose sign would depend on
  the sign of the zero; the model takes the zero as positive.
\<close>

fun fdiv :: "float32 \<Rightarrow> float32 \<Rightarrow> float32" where
  "fdiv NaN y = NaN"
| "fdiv x NaN = NaN"
| "fdiv (Fin a) (Fin b) =
     (if b = 0 then (if a = 0 then NaN else finf (fsgn (Fin a))) else f32 (a / b))"
| "fdiv (Fin a) y = Fin 0"
| "fdiv x (Fin b) = finf (fsgn x * (if b < 0 then - 1 else 1))"
| "fdiv x y = NaN"

fun flt :: "float32 \<Rightarrow> float32 \<Rightarrow> bool" where
  "flt NaN y = False"
| "flt x NaN = False"
| "flt (Fin a) (Fin b) = (a < b)"
| "flt x y = (fsgn x < fsgn y \<and> (x = MInf \<or> y = PInf))"

fun fle :: "float32 \<Rightarrow> float32 \<Rightarrow> bool" where
  "fle NaN y = False"
| "fle x NaN = False"
| "fle (Fin a) (Fin b) = (a \<le> b)"
| "fle x y = (x = y \<or> x = MInf \<or> y = PInf)"

fun fabsf :: "float32 \<Rightarrow> float32" where
  "fabsf (Fin a) = Fin \<bar>a\<bar>"
| "fabsf PInf = PInf"
| "fabsf MInf = PInf"
| "fabsf NaN = NaN"

fun floorf :: "float32 \<Rightarrow> float32" where
  "floorf (Fin a) = Fin (of_int \<lfloor>a\<rfloor>)"
| "floorf x = x"

text \<open>\<^verbatim>\<open>roundf\<close> rounds to the nearest integer, halfway cases away from zero.\<close>

definition round_away :: "rat \<Rightarrow> int" where
  "round_away a = (if 0 \<le> a then \<lfloor>a + 1 / 2\<rfloor> else - \<lfloor>- a + 1 / 2\<rfloor>)"

fun roundf :: "float32 \<Rightarrow> float32" where
  "roundf (Fin a) = Fin (of_int (round_away a))"
| "roundf x = x"

text \<open>\<^verbatim>\<open>fmodf(x, y)\<close>: the remainder of the division truncated towards zero, exact.\<close>

definition trunc :: "rat \<Rightarrow> int" where
  "trunc a = (if 0 \<le> a then \<lfloor>a\<rfloor> else - \<lfloor>- a\<rfloor>)"

fun fmodf :: "float32 \<Rightarrow> float32 \<Rightarrow> float32" where
  "fmodf (Fin a) (Fin b) = (if b = 0 then NaN else Fin (a - b * of_int (trunc (a / b))))"
| "fmodf (Fin a) PInf = Fin a"
| "fmodf (Fin a) MInf = Fin a"
| "fmodf x y = NaN"

text \<open>
  Conversions.  An integer converts to the nearest \<^verbatim>\<open>float\<close>.  A \<^verbatim>\<open>float\<close> converts to an
  unsigned integer type by truncation; C leaves the conversion undefined when the
  truncated value is not a value of the type (or the operand is not finite), which is
  \<open>None\<close> here.
\<close>

definition float_of_int :: "int \<Rightarrow> float32" where
  "float_of_int i = f32 (of_int i)"

definition float_to_uint :: "nat \<Rightarrow> float32 \<Rightarrow> int option" where
  "float_to_uint bits x =
    (case x of
       Fin a \<Rightarrow> if 0 \<le> trunc a \<and> trunc a < 2 ^ bits then Some (trunc a) else None
     | _ \<Rightarrow> None)"

text \<open>
  \<^verbatim>\<open>memcpy(&f, bytes, 4)\<close>: the binary32 value of a bit pattern (sign, eight exponent
  bits, 23 fraction bits).
\<close>

definition float_of_bits :: "u32 \<Rightarrow> float32" where
  "float_of_bits w =
    (let s = (if bit w 31 then - 1 else 1 :: rat);
         e = unat (drop_bit 23 w AND 0xFF);
         m = uint (w AND 0x7FFFFF)
     in if e = 255 then (if m = 0 then (if bit w 31 then MInf else PInf) else NaN)
        else if e = 0 then Fin (s * of_int m / 2 ^ 149)
        else Fin (s * of_int (2 ^ 23 + m) * 2 ^ (e - 1) / 2 ^ 149))"

text \<open>
  Literals.  A decimal literal with suffix \<^verbatim>\<open>f\<close> is the nearest binary32 value;
  \<^verbatim>\<open>(float)M_PI\<close> is the binary32 value \<^verbatim>\<open>0x40490FDB\<close>.
\<close>

definition flit :: "rat \<Rightarrow> float32" where
  "flit q = Fin (f32_round q)"

definition M_PI_f :: float32 where
  "M_PI_f = Fin (13176795 / 4194304)"

definition clampf :: "float32 \<Rightarrow> float32 \<Rightarrow> float32 \<Rightarrow> float32" where
  "clampf v a b = (if flt v a then a else if flt b v then b else v)"

subsection \<open>The state of the sketch\<close>

text \<open>
  The global variables that the receive path reads or writes, and the two outputs: the
  frames handed to the CAN driver and the datagrams written to the SeaTalk UART, each
  byte with the parity it is sent under.  Log output and delays are not modelled.
\<close>

datatype PilotMode = PM_STBY | PM_AUTO | PM_WIND | PM_TRACK

datatype HeadingRef = REF_TRUE | REF_MAG

datatype uart_parity = UART_PARITY_EVEN | UART_PARITY_ODD

record world =
  currentMode :: PilotMode
  headingRef :: HeadingRef
  hdg_deg_now :: float32
  locked_hdg_deg :: float32
  xte_nm :: float32
  dtw_nm :: float32
  cog_mag_deg :: float32
  sog_kn :: float32
  awa_deg :: float32
  aws_kn :: float32
  stw_kn :: float32
  grp :: FPBuf
  can_tx :: "twai_message_t list"
  st_tx :: "(uart_parity \<times> u8) list list"

text \<open>
  The state that \<^verbatim>\<open>setup()\<close> leaves: the initialisers of the globals.  The two output
  lists hold what is sent after \<^verbatim>\<open>setup()\<close>, so they start empty.
\<close>

definition initial_world :: world where
  "initial_world =
    \<lparr>currentMode = PM_STBY, headingRef = REF_MAG, hdg_deg_now = Fin 0, locked_hdg_deg = NaN,
     xte_nm = Fin 0, dtw_nm = Fin 0, cog_mag_deg = Fin 0, sog_kn = Fin 0, awa_deg = Fin 0,
     aws_kn = Fin 0, stw_kn = Fin 0, grp = gf_reset, can_tx = [], st_tx = []\<rparr>"

definition can_send :: "world \<Rightarrow> twai_message_t list \<Rightarrow> world" where
  "can_send w ms = w\<lparr>can_tx := can_tx w @ ms\<rparr>"

subsection \<open>Little-endian helpers and identity frames\<close>

definition put_u16le :: "u16 \<Rightarrow> u8 list" where
  "put_u16le v = [ucast (v AND 0xFF), ucast (drop_bit 8 v AND 0xFF)]"


definition buildNAME :: u64 where
  "buildNAME =
    push_bit 0 (0x37AC5 AND 0x1FFFFF) OR
    push_bit 21 (1851 AND 0x07FF) OR
    push_bit 32 (0 AND 0x07) OR
    push_bit 35 (0 AND 0x1F) OR
    push_bit 40 (135 AND 0xFF) OR
    push_bit 48 0x1 OR
    push_bit 49 (40 AND 0x7F) OR
    push_bit 56 0x0 OR
    push_bit 60 (4 AND 0x07) OR
    push_bit 63 1"

definition send_60928_AddressClaim :: "twai_message_t list" where
  "send_60928_AddressClaim =
    n2k_send_single PGN_ADDR_CLAIM
      (map (\<lambda>i. ucast (drop_bit (8 * i) buildNAME AND 0xFF)) [0..<8]) 8 6"

definition bytes_of :: "string \<Rightarrow> u8 list" where
  "bytes_of s = map (\<lambda>c. of_nat (of_char c)) s"

definition pad32 :: "string \<Rightarrow> u8 list" where
  "pad32 src = take 32 (bytes_of src) @ replicate (32 - min 32 (length src)) 0"

definition send_126996_Product :: "u32 \<Rightarrow> twai_message_t list" where
  "send_126996_Product now =
    n2k_send_fast now PGN_PRODUCT_INFO
      (put_u16le 1301 @ put_u16le 20001 @ pad32 ''E70010'' @ pad32 ''v1.0.0'' @
       pad32 ''Raymarine AP (emu)'' @ pad32 ''RM-EMU-001'' @ [1, 3]) 134 6"


subsection \<open>Raymarine proprietary frames\<close>

definition rm_mfg_word_only :: u16 where
  "rm_mfg_word_only = 1851 AND 0x07FF"

fun rmModeField2 :: "PilotMode \<Rightarrow> u16" where
  "rmModeField2 PM_STBY = 0x0000"
| "rmModeField2 PM_AUTO = 0x0040"
| "rmModeField2 PM_WIND = 0x0100"
| "rmModeField2 PM_TRACK = 0x0180"

fun rmModeDataByte :: "PilotMode \<Rightarrow> u8" where
  "rmModeDataByte PM_STBY = 0x00"
| "rmModeDataByte PM_AUTO = 0x40"
| "rmModeDataByte PM_WIND = 0x01"
| "rmModeDataByte PM_TRACK = 0x80"

text \<open>
  The two normalising loops \<^verbatim>\<open>while (d<0) d+=360.0f; while (d>=360) d-=360.0f;\<close>.
  In floating point neither loop is bound to end (adding 360 to a large negative value
  returns the value), so each is a partial function: \<open>None\<close> is a loop that runs for
  ever.
\<close>

partial_function (option) while_neg_add360 :: "float32 \<Rightarrow> float32 option" where
  "while_neg_add360 d =
     (if flt d (Fin 0) then while_neg_add360 (fadd d (Fin 360)) else Some d)"

partial_function (option) while_ge360_sub360 :: "float32 \<Rightarrow> float32 option" where
  "while_ge360_sub360 d =
     (if fle (Fin 360) d then while_ge360_sub360 (fsub d (Fin 360)) else Some d)"

declare while_neg_add360.simps [code]
declare while_ge360_sub360.simps [code]

definition norm360 :: "float32 \<Rightarrow> float32 option" where
  "norm360 d = Option.bind (while_neg_add360 d) while_ge360_sub360"

definition deg_to_rad1e4_u16 :: "float32 \<Rightarrow> u16 option" where
  "deg_to_rad1e4_u16 deg =
    Option.bind (norm360 deg) (\<lambda>d.
      let rad = fdiv (fmul d M_PI_f) (Fin 180)
      in map_option
           (\<lambda>v. ucast (if (word_of_int v :: u32) > 0xFFFF then 0xFFFF else (word_of_int v :: u32)))
           (float_to_uint 32 (roundf (fmul rad (Fin 10000)))))"

definition send_65360_locked_heading :: "float32 \<Rightarrow> twai_message_t list option" where
  "send_65360_locked_heading hdg =
    (if isnan hdg then Some []
     else map_option
       (\<lambda>ang. let comp = rm_mfg_word_only
              in n2k_send_single PGN_RM_LOCKED_HEADING
                   [ucast (comp AND 0xFF), ucast (drop_bit 8 comp), 0xFF,
                    ucast (ang AND 0xFF), ucast (drop_bit 8 ang),
                    ucast (ang AND 0xFF), ucast (drop_bit 8 ang), 0xFF] 8 3)
       (deg_to_rad1e4_u16 hdg))"

definition send_65379_mode :: "PilotMode \<Rightarrow> twai_message_t list" where
  "send_65379_mode m =
    (let comp = rm_mfg_word_only; mode2 = rmModeField2 m
     in n2k_send_single PGN_RM_PILOT_MODE
          [ucast (comp AND 0xFF), ucast (drop_bit 8 comp),
           ucast (mode2 AND 0xFF), ucast (drop_bit 8 mode2), 0xFF, 0xFF,
           rmModeDataByte m, 0xFF] 8 3)"

subsection \<open>SeaTalk datagrams\<close>

text \<open>
  \<^verbatim>\<open>st_write_datagram(data, len)\<close>: the first byte goes out under odd parity, the rest
  under even parity.  An empty datagram writes nothing.
\<close>

definition st_write_datagram :: "world \<Rightarrow> u8 list \<Rightarrow> nat \<Rightarrow> world" where
  "st_write_datagram w d len =
    (if len = 0 then w
     else w\<lparr>st_tx := st_tx w @
            [(UART_PARITY_ODD, d ! 0) # map (Pair UART_PARITY_EVEN) (take (len - 1) (drop 1 d))]\<rparr>)"

definition ST_CODE_AUTO :: u8 where "ST_CODE_AUTO = 0x01"
definition ST_CODE_STANDBY :: u8 where "ST_CODE_STANDBY = 0x02"
definition ST_CODE_PLUS1 :: u8 where "ST_CODE_PLUS1 = 0x07"
definition ST_CODE_PLUS10 :: u8 where "ST_CODE_PLUS10 = 0x08"
definition ST_CODE_MINUS1 :: u8 where "ST_CODE_MINUS1 = 0x05"
definition ST_CODE_MINUS10 :: u8 where "ST_CODE_MINUS10 = 0x06"
definition ST_SENDER_NIB :: u8 where "ST_SENDER_NIB = 0x2"

definition st_send_keystroke :: "world \<Rightarrow> u8 \<Rightarrow> world" where
  "st_send_keystroke w code =
    st_write_datagram w [0x86, push_bit 4 ST_SENDER_NIB OR 0x01, code, NOT code] 4"

text \<open>\<^verbatim>\<open>st_press(code, repeats)\<close>; every call in the sketch uses the default of 2 repeats.\<close>

fun st_press_loop :: "world \<Rightarrow> u8 \<Rightarrow> nat \<Rightarrow> world" where
  "st_press_loop w code 0 = w"
| "st_press_loop w code (Suc n) = st_press_loop (st_send_keystroke w code) code n"

definition st_press :: "world \<Rightarrow> u8 \<Rightarrow> world" where
  "st_press w code = st_press_loop w code 2"

text \<open>
  The nine bytes of \<^verbatim>\<open>st_send_nav_0x85\<close>.  The result is \<open>None\<close> where one of the
  conversions from \<^verbatim>\<open>float\<close> to an unsigned type is undefined in C.
\<close>

definition st_nav_0x85_bytes :: "float32 \<Rightarrow> float32 \<Rightarrow> float32 \<Rightarrow> bool \<Rightarrow> u8 list option" where
  "st_nav_0x85_bytes xteNm bearingMagDeg distNm enterTrack =
    (let xabs = fabsf xteNm in
     Option.bind (float_to_uint 16 (roundf (fmul (clampf xabs (Fin 0) (flit (4095 / 100))) (Fin 100))))
     (\<lambda>Xi.
       let X = (word_of_int Xi :: u16);
           X_hi = (ucast (drop_bit 8 X) AND 0x0F :: u8);
           X_lo = (ucast (X AND 0xFF) :: u8);
           brg = fmodf (fadd bearingMagDeg (Fin 360)) (Fin 360)
       in Option.bind (float_to_uint 8 (floorf (fdiv brg (Fin 90))))
       (\<lambda>qi.
         let quad = (word_of_int qi AND 0x03 :: u8);
             U = quad;
             rem = fsub brg (fmul (float_of_int (uint quad)) (Fin 90))
         in Option.bind (float_to_uint 8 (roundf (fmul rem (Fin 2))))
         (\<lambda>wvi.
           let WV = (word_of_int wvi :: u8);
               V = WV AND 0x0F;
               W = drop_bit 4 WV AND 0x0F;
               lt10 = flt distNm (Fin 10)
           in Option.bind
                (float_to_uint 16
                  (roundf (fmul (clampf distNm (Fin 0) (flit (4095 / 10)))
                                (if lt10 then Fin 100 else Fin 10))))
           (\<lambda>Di.
             let D = (word_of_int Di :: u16);
                 Z_hi = (ucast (drop_bit 8 D) AND 0x0F :: u8);
                 ZZ = (ucast (drop_bit 4 D AND 0xFF) :: u8);
                 Y0 = (ucast (D AND 0x0F) :: u8);
                 Y1 = (if lt10 then Y0 OR 0x01 else Y0);
                 Y = (if flt xteNm (Fin 0) then Y1 OR 0x04 else Y1);
                 F = (if enterTrack then 0x07 else 0x05 :: u8)
             in Some [0x85, 0x60 OR X_hi, X_lo, push_bit 4 V OR U, push_bit 4 Z_hi OR W, ZZ,
                      push_bit 4 Y OR F, 0x00, push_bit 4 Y OR F])))))"

definition st_send_nav_0x85 :: "world \<Rightarrow> float32 \<Rightarrow> float32 \<Rightarrow> float32 \<Rightarrow> bool \<Rightarrow> world option" where
  "st_send_nav_0x85 w xteNm bearingMagDeg distNm enterTrack =
     map_option (\<lambda>p. st_write_datagram w p 9)
       (st_nav_0x85_bytes xteNm bearingMagDeg distNm enterTrack)"

subsection \<open>The command-group handlers\<close>

text \<open>
  \<^verbatim>\<open>handle_126208_request(target)\<close>, also called for an ISO request.  \<open>now\<close> is the clock
  reading that \<^verbatim>\<open>n2k_send_fast\<close> takes its sequence id from.
\<close>

definition handle_126208_request :: "u32 \<Rightarrow> world \<Rightarrow> u32 \<Rightarrow> world option" where
  "handle_126208_request now w target =
    (if target = 65379 then Some (can_send w (n2k_send_single 65379 (replicate 8 0xFF) 8 3))
     else if target = 65360 then
       (if \<not> isnan (locked_hdg_deg w)
        then map_option (can_send w) (send_65360_locked_heading (locked_hdg_deg w))
        else Some w)
     else if target = 126996 then Some (can_send w (send_126996_Product now))
     else if target = 60928 then Some (can_send w send_60928_AddressClaim)
     else Some w)"

text \<open>
  \<^verbatim>\<open>gf65360_extractMagHeading(b, n, deg_out)\<close>: the first byte \<^verbatim>\<open>0x06\<close> among the first
  \<open>n - 2\<close> bytes marks a 16-bit heading in units of 1e-4 radians.  The byte array and
  its length are one list here.
\<close>

function extractMagHeading_loop :: "u8 list \<Rightarrow> nat \<Rightarrow> float32 option" where
  "extractMagHeading_loop b i =
     (if i + 3 \<le> length b then
        (if b ! i = 0x06 then
           let raw = (ucast (b ! (i + 1)) OR push_bit 8 (ucast (b ! (i + 2))) :: u16)
           in Some (fdiv (fmul (fmul (float_of_int (uint raw)) (flit (1 / 10000))) (Fin 180))
                     M_PI_f)
         else extractMagHeading_loop b (i + 1))
      else None)"
  by pat_completeness auto
termination
  by (relation "measure (\<lambda>(b, i). length b - i)") auto

declare extractMagHeading_loop.simps [simp del]

definition gf65360_extractMagHeading :: "u8 list \<Rightarrow> float32 option" where
  "gf65360_extractMagHeading b = extractMagHeading_loop b 0"

text \<open>
  \<^verbatim>\<open>apply_rm_selector_or_button(b, n)\<close>: the selector loop, then the button loop, each
  over the positions \<open>0 \<le> i \<le> n - 3\<close>.  The result is the flag \<^verbatim>\<open>did\<close> and the new state.
\<close>

definition selector_mode :: "u8 \<Rightarrow> PilotMode \<Rightarrow> PilotMode" where
  "selector_mode sel cur =
    (if sel = 0x00 then PM_STBY else if sel = 0x40 then PM_AUTO
     else if sel = 0x01 then PM_WIND else if sel = 0x80 then PM_TRACK else cur)"

definition apply_selector :: "world \<Rightarrow> u8 \<Rightarrow> world" where
  "apply_selector w sel =
    (let nm = selector_mode sel (currentMode w) in
     if nm \<noteq> currentMode w then
       let w1 = w\<lparr>currentMode := nm, headingRef := REF_MAG\<rparr>;
           w2 = (if nm = PM_AUTO
                 then (st_press w1 ST_CODE_AUTO)\<lparr>locked_hdg_deg := hdg_deg_now w1\<rparr> else w1);
           w3 = (if nm = PM_STBY
                 then (st_press w2 ST_CODE_STANDBY)\<lparr>locked_hdg_deg := NaN\<rparr> else w2);
           w4 = (if nm = PM_TRACK
                 then (st_press w3 ST_CODE_AUTO)\<lparr>locked_hdg_deg := hdg_deg_now w3\<rparr> else w3)
       in can_send w4 (send_65379_mode (currentMode w4))
     else w)"

function selector_loop :: "world \<Rightarrow> u8 list \<Rightarrow> nat \<Rightarrow> bool \<Rightarrow> bool \<times> world" where
  "selector_loop w b i did =
     (if i + 3 \<le> length b then
        (if b ! i = 0x04 \<and> b ! (i + 1) = 0x04
         then selector_loop (apply_selector w (b ! (i + 2))) b (i + 1) True
         else selector_loop w b (i + 1) did)
      else (did, w))"
  by pat_completeness auto
termination
  by (relation "measure (\<lambda>(w, b, i, did). length b - i)") auto

declare selector_loop.simps [simp del]

definition apply_button :: "world \<Rightarrow> u8 \<Rightarrow> bool \<Rightarrow> bool \<times> world" where
  "apply_button w code did =
    (if code = 0x00 then
       (let w1 = (st_press (w\<lparr>currentMode := PM_STBY\<rparr>) ST_CODE_STANDBY)\<lparr>locked_hdg_deg := NaN\<rparr>
        in (True, can_send w1 (send_65379_mode (currentMode w1))))
     else if code = 0x40 then
       (let w0 = st_press (w\<lparr>currentMode := PM_AUTO\<rparr>) ST_CODE_AUTO;
            w1 = w0\<lparr>locked_hdg_deg := hdg_deg_now w0\<rparr>
        in (True, can_send w1 (send_65379_mode (currentMode w1))))
     else if code = 0x01 then
       (let w1 = w\<lparr>currentMode := PM_WIND\<rparr>
        in (True, can_send w1 (send_65379_mode (currentMode w1))))
     else if code = 0x80 then
       (let w0 = st_press (w\<lparr>currentMode := PM_TRACK\<rparr>) ST_CODE_AUTO;
            w1 = w0\<lparr>locked_hdg_deg := hdg_deg_now w0\<rparr>
        in (True, can_send w1 (send_65379_mode (currentMode w1))))
     else if code = 0x51 then (True, st_press w ST_CODE_PLUS1)
     else if code = 0x7F then (True, st_press w ST_CODE_MINUS1)
     else if code = 0xD1 then (True, st_press w ST_CODE_PLUS10)
     else if code = 0x50 then (True, st_press w ST_CODE_MINUS10)
     else (did, w))"

function button_loop :: "world \<Rightarrow> u8 list \<Rightarrow> nat \<Rightarrow> bool \<Rightarrow> bool \<times> world" where
  "button_loop w b i did =
     (if i + 3 \<le> length b then
        (if b ! i = 0x06
         then (case apply_button w (b ! (i + 1)) did of
                 (did', w') \<Rightarrow> button_loop w' b (i + 1) did')
         else button_loop w b (i + 1) did)
      else (did, w))"
  by pat_completeness auto
termination
  by (relation "measure (\<lambda>(w, b, i, did). length b - i)") auto

declare button_loop.simps [simp del]

definition apply_rm_selector_or_button :: "world \<Rightarrow> u8 list \<Rightarrow> bool \<times> world" where
  "apply_rm_selector_or_button w b =
    (case selector_loop w b 0 False of (did, w1) \<Rightarrow> button_loop w1 b 0 did)"

text \<open>
  \<^verbatim>\<open>handle_126208_full(b, n)\<close> on a completed command: function code, target PGN in three
  bytes, parameter bytes.  Function code 1 is handled as a request; any other code is a
  write-command, acted on for the two proprietary target PGNs only.
\<close>

definition handle_126208_full :: "u32 \<Rightarrow> world \<Rightarrow> u8 list \<Rightarrow> world option" where
  "handle_126208_full now w b =
    (if length b < 4 then Some w
     else
       let func = b ! 0;
           target = (ucast (b ! 1) OR push_bit 8 (ucast (b ! 2)) OR push_bit 16 (ucast (b ! 3))
                      :: u32)
       in if func = 0x01 then handle_126208_request now w target
          else if target = PGN_RM_PILOT_MODE \<or> target = PGN_RM_LOCKED_HEADING then
            (case apply_rm_selector_or_button w (drop 4 b) of
               (acted, w1) \<Rightarrow>
                 if target = PGN_RM_LOCKED_HEADING then
                   (case gf65360_extractMagHeading (drop 4 b) of
                      None \<Rightarrow> Some w1
                    | Some newH \<Rightarrow>
                        map_option (\<lambda>h. w1\<lparr>locked_hdg_deg := h\<rparr>) (norm360 newH))
                 else Some w1)
          else Some w)"

text \<open>
  \<^verbatim>\<open>feed_126208\<close> on the whole state: the buffer step, and the handler on the completed
  command.  (The source calls the handler before it resets \<^verbatim>\<open>grp\<close>; the handler does not
  touch \<^verbatim>\<open>grp\<close>.)
\<close>

definition feed_126208 :: "u32 \<Rightarrow> world \<Rightarrow> u8 \<Rightarrow> u8 list \<Rightarrow> int \<Rightarrow> world option" where
  "feed_126208 now w sa_in d n =
    (let r = feed_126208_grp (grp w) sa_in d n
     in case delivered r of
          None \<Rightarrow> Some (w\<lparr>grp := new_grp r\<rparr>)
        | Some b \<Rightarrow> handle_126208_full now (w\<lparr>grp := new_grp r\<rparr>) b)"

definition handle_126208_entry :: "u32 \<Rightarrow> world \<Rightarrow> u8 \<Rightarrow> u8 list \<Rightarrow> int \<Rightarrow> world option" where
  "handle_126208_entry now w sa_in d n =
    (if n \<le> 0 then Some w
     else if (d ! 0) AND 0xE0 \<ge> 0xA0 then handle_126208_full now w (take (nat n) d)
     else feed_126208 now w sa_in d n)"

subsection \<open>The receive half of \<^verbatim>\<open>loop()\<close>\<close>

text \<open>
  One received frame: the switch on the PGN.  The timer-driven transmissions of
  \<^verbatim>\<open>loop()\<close> assign none of the variables of the state and are not part of this function.
\<close>

definition u16le :: "u8 \<Rightarrow> u8 \<Rightarrow> u16" where
  "u16le lo hi = ucast lo OR push_bit 8 (ucast hi)"

definition rad1e4_to_deg :: "u16 \<Rightarrow> float32" where
  "rad1e4_to_deg q =
     fdiv (fmul (fmul (float_of_int (uint q)) (flit (1 / 10000))) (Fin 180)) M_PI_f"

definition loop_rx :: "u32 \<Rightarrow> world \<Rightarrow> twai_message_t \<Rightarrow> world option" where
  "loop_rx now w m =
    (if \<not> extd m then Some w
     else
       let pgn = extractPGN m; b = data m; n = uint (data_length_code m) in
       if pgn = PGN_CMD_GROUP then handle_126208_entry now w (id_source (identifier' m)) b n
       else if pgn = PGN_ISO_REQUEST then
         (if 3 \<le> n
          then handle_126208_request now w
                 (ucast (b ! 0) OR push_bit 8 (ucast (b ! 1)) OR push_bit 16 (ucast (b ! 2)))
          else Some w)
       else if pgn = PGN_VESSEL_HEAD then
         (if 3 \<le> n
          then let h = rad1e4_to_deg (u16le (b ! 1) (b ! 2))
               in Some (w\<lparr>hdg_deg_now := (if \<not> isfinite h then Fin 0 else h)\<rparr>)
          else Some w)
       else if pgn = PGN_WIND then
         (if 6 \<le> n
          then let sp = u16le (b ! 1) (b ! 2); an = u16le (b ! 3) (b ! 4)
               in Some (w\<lparr>aws_kn := (if sp = 0xFFFF then Fin 0
                              else fmul (fmul (float_of_int (uint sp)) (flit (1 / 100)))
                                     (flit (194384 / 100000))),
                            awa_deg := (if an = 0xFFFF then Fin 0
                              else fmodf (rad1e4_to_deg an) (Fin 360))\<rparr>)
          else Some w)
       else if pgn = PGN_STW then
         (if 3 \<le> n
          then let raw = u16le (b ! 1) (b ! 2);
                   mps = (if raw = 0xFFFF then Fin 0
                          else fmul (float_of_int (uint raw)) (flit (1 / 100)))
               in Some (w\<lparr>stw_kn := fmul mps (flit (194384 / 100000))\<rparr>)
          else Some w)
       else if pgn = PGN_COGSOG then
         (if 7 \<le> n
          then let cogr = u16le (b ! 1) (b ! 2); sogc = u16le (b ! 5) (b ! 6)
               in Some (w\<lparr>cog_mag_deg := fmodf (rad1e4_to_deg cogr) (Fin 360),
                            sog_kn := (if sogc = 0xFFFF then Fin 0
                              else fmul (fmul (float_of_int (uint sogc)) (flit (1 / 100)))
                                     (flit (194384 / 100000)))\<rparr>)
          else Some w)
       else if pgn = PGN_XTE then
         (if 8 \<le> n
          then let meters = float_of_bits
                     (ucast (b ! 0) OR push_bit 8 (ucast (b ! 1)) OR push_bit 16 (ucast (b ! 2))
                      OR push_bit 24 (ucast (b ! 3)))
               in Some (w\<lparr>xte_nm := fdiv meters (Fin 1852)\<rparr>)
          else Some w)
       else Some w)"

text \<open>A run of the receive path over a sequence of frames, each with its clock reading.\<close>

fun run_rx :: "world \<Rightarrow> (u32 \<times> twai_message_t) list \<Rightarrow> world option" where
  "run_rx w [] = Some w"
| "run_rx w ((now, m) # ms) = Option.bind (loop_rx now w m) (\<lambda>w'. run_rx w' ms)"

subsection \<open>Predicates on states and runs\<close>

text \<open>
  The datagram of \<^verbatim>\<open>st_send_keystroke\<close> with the parity of each byte.
\<close>

definition keystroke_datagram :: "u8 \<Rightarrow> (uart_parity \<times> u8) list" where
  "keystroke_datagram code =
     [(UART_PARITY_ODD, 0x86), (UART_PARITY_EVEN, 0x21), (UART_PARITY_EVEN, code),
      (UART_PARITY_EVEN, NOT code)]"

text \<open>
  A heading in degrees as the sketch holds it before normalisation: finite, not
  negative, at most 400.  \<open>world_ok\<close> says so of the current heading, and of the locked
  heading unless it is NaN.
\<close>

definition heading_ok :: "float32 \<Rightarrow> bool" where
  "heading_ok x = (case x of Fin h \<Rightarrow> 0 \<le> h \<and> h \<le> 400 | _ \<Rightarrow> False)"

definition world_ok :: "world \<Rightarrow> bool" where
  "world_ok w \<longleftrightarrow>
     heading_ok (hdg_deg_now w) \<and> (isnan (locked_hdg_deg w) \<or> heading_ok (locked_hdg_deg w))"

text \<open>The claimed invariant: in Standby the locked heading is NaN.\<close>

definition standby_inv :: "world \<Rightarrow> bool" where
  "standby_inv w \<longleftrightarrow> (currentMode w = PM_STBY \<longrightarrow> isnan (locked_hdg_deg w))"

text \<open>
  The completed command, if any, that a received frame hands to
  \<^verbatim>\<open>handle_126208_full\<close>: the frame itself on the single-frame path of
  \<^verbatim>\<open>handle_126208_entry\<close>, the reassembled buffer on the fast-packet path.
\<close>

definition rx_command :: "world \<Rightarrow> twai_message_t \<Rightarrow> u8 list option" where
  "rx_command w m =
    (let d = data m; n = uint (data_length_code m) in
     if extd m \<and> extractPGN m = PGN_CMD_GROUP \<and> 0 < n then
       (if (d ! 0) AND 0xE0 \<ge> 0xA0 then Some (take (nat n) d)
        else delivered (feed_126208_grp (grp w) (id_source (identifier' m)) d n))
     else None)"

definition cmd_target :: "u8 list \<Rightarrow> u32" where
  "cmd_target b = ucast (b ! 1) OR push_bit 8 (ucast (b ! 2)) OR push_bit 16 (ucast (b ! 3))"

text \<open>
  A write-command for the locked-heading PGN 65360 whose parameter bytes hold a heading
  field: the command that overwrites the locked heading.
\<close>

definition is_heading_write :: "u8 list \<Rightarrow> bool" where
  "is_heading_write b \<longleftrightarrow>
     4 \<le> length b \<and> b ! 0 \<noteq> 0x01 \<and> cmd_target b = PGN_RM_LOCKED_HEADING \<and>
     gf65360_extractMagHeading (drop 4 b) \<noteq> None"

fun no_heading_write :: "world \<Rightarrow> (u32 \<times> twai_message_t) list \<Rightarrow> bool" where
  "no_heading_write w [] = True"
| "no_heading_write w ((now, m) # ms) =
     ((case rx_command w m of None \<Rightarrow> True | Some b \<Rightarrow> \<not> is_heading_write b) \<and>
      (case loop_rx now w m of None \<Rightarrow> True | Some w' \<Rightarrow> no_heading_write w' ms))"




text \<open>
  A received frame writes the locked heading when the command it completes is a
  write-command to PGN 65360 with a heading field.  The runs of the corrected invariant:
  no frame of the run writes the locked heading and leaves the mode Standby.
\<close>

definition heading_written :: "world \<Rightarrow> twai_message_t \<Rightarrow> bool" where
  "heading_written w m = (case rx_command w m of None \<Rightarrow> False | Some b \<Rightarrow> is_heading_write b)"

fun no_standby_heading_write :: "world \<Rightarrow> (u32 \<times> twai_message_t) list \<Rightarrow> bool" where
  "no_standby_heading_write w [] = True"
| "no_standby_heading_write w ((now, m) # ms) =
     (case loop_rx now w m of
        None \<Rightarrow> True
      | Some w' \<Rightarrow> \<not> (heading_written w m \<and> currentMode w' = PM_STBY) \<and>
                   no_standby_heading_write w' ms)"

section \<open>Bit-level facts\<close>

lemma and_FF_take_bit: "(x :: 'a::len word) AND 0xFF = take_bit 8 x"
  by (simp add: take_bit_eq_mask mask_eq_exp_minus_1)

lemma and_7_take_bit: "(x :: 'a::len word) AND 7 = take_bit 3 x"
  by (simp add: take_bit_eq_mask mask_eq_exp_minus_1)

lemma and_1_take_bit: "(x :: 'a::len word) AND 1 = take_bit 1 x"
  by (simp add: take_bit_eq_mask mask_eq_exp_minus_1)

lemma FF_take_bit: "(0xFF :: u32) = take_bit 8 (- 1)"
  by (simp add: mask_eq_exp_minus_1)

lemmas mask_take_bit = and_FF_take_bit and_7_take_bit and_1_take_bit

lemma n2k_id_source_byte: "n2k_id p g s AND 0xFF = ucast s"
  unfolding n2k_id_def Let_def mask_take_bit FF_take_bit
  apply (rule bit_eqI)
  apply (simp add: bit_simps split: if_splits)
  apply (auto simp: bit_simps dest: bit_imp_le_length)
  done

lemma n2k_id_priority_bits: "drop_bit 26 (n2k_id p g s) = ucast (p AND 7)"
  unfolding n2k_id_def Let_def mask_take_bit FF_take_bit
  apply (rule bit_eqI)
  apply (simp add: bit_simps split: if_splits)
  apply (auto simp: bit_simps dest: bit_imp_le_length)
  done

lemma n2k_id_PF: "drop_bit 16 (n2k_id p g s) AND 0xFF = drop_bit 8 g AND 0xFF"
  unfolding n2k_id_def Let_def mask_take_bit FF_take_bit
  apply (rule bit_eqI)
  apply (simp add: bit_simps split: if_splits)
  apply (auto simp: bit_simps dest: bit_imp_le_length)
  done


lemma bit_u8_high: "8 \<le> k \<Longrightarrow> bit (x::u8) k = False"
  by (auto dest: bit_imp_le_length)

lemma n2k_id_PS2:
  "\<not> drop_bit 8 g AND 0xFF < 240 \<Longrightarrow> drop_bit 8 (n2k_id p g s) AND 0xFF = g AND 0xFF"
  unfolding n2k_id_def Let_def 
  apply (simp only: if_False)
  unfolding mask_take_bit FF_take_bit
  apply (rule bit_eqI)
  subgoal for n
    by (cases "n < 8") (simp_all add: bit_simps bit_u8_high)
  done

lemma n2k_id_PS1:
  "drop_bit 8 g AND 0xFF < 240 \<Longrightarrow> drop_bit 8 (n2k_id p g s) AND 0xFF = 0xFF"
  unfolding n2k_id_def Let_def 
  apply (simp only: if_True)
  unfolding mask_take_bit FF_take_bit
  apply (rule bit_eqI)
  subgoal for n
    by (cases "n < 8") (simp_all add: bit_simps bit_u8_high)
  done

lemma n2k_id_DP: "drop_bit 24 (n2k_id p g s) AND 1 = drop_bit 16 g AND 1"
  unfolding n2k_id_def Let_def mask_take_bit FF_take_bit
  apply (rule bit_eqI)
  subgoal for n
    by (cases "n = 0") (simp_all add: bit_simps bit_u8_high flip: bit_0 split: if_splits)
  done

lemma ucast_byte_less: "(ucast (y AND 0xFF :: u32) :: u8) < 240 \<longleftrightarrow> y AND 0xFF < 240"
proof -
  have "unat (y AND 0xFF) < 256"
    unfolding and_FF_take_bit
    using take_bit_nat_less_exp [of 8 "unat y"] by (simp add: unsigned_take_bit_eq)
  then show ?thesis
    by (simp add: word_less_nat_alt unsigned_ucast_eq take_bit_nat_eq_self)
qed

lemma bit_pgn_high: "g < 2 ^ 17 \<Longrightarrow> 17 \<le> n \<Longrightarrow> bit (g :: u32) n = False"
proof -
  assume a: "g < 2 ^ 17" and n: "17 \<le> n"
  have "take_bit 17 g = g" using a less_mask_eq [of g 17] by (simp add: take_bit_eq_mask)
  then have "bit g n = bit (take_bit 17 g) n" by simp
  also have "\<dots> = False" using n by (simp add: bit_take_bit_iff)
  finally show ?thesis .
qed

lemma pgn_fields_pdu2:
  assumes "g < 2 ^ 17"
  shows "push_bit 16 (ucast (ucast (drop_bit 16 g AND 1 :: u32) :: u8)) OR
         push_bit 8 (ucast (ucast (drop_bit 8 g AND 0xFF :: u32) :: u8)) OR
         ucast (ucast (g AND 0xFF :: u32) :: u8) = (g :: u32)"
  unfolding mask_take_bit
  apply (rule bit_eqI)
  subgoal for n
  proof -
    consider "n < 8" | "8 \<le> n" "n < 16" | "n = 16" | "17 \<le> n" by linarith
    then show ?thesis
    proof cases
      case 1 then show ?thesis by (auto simp add: bit_simps)
    next
      case 2 then show ?thesis by (auto simp add: bit_simps)
    next
      case 3 then show ?thesis by (auto simp add: bit_simps simp flip: bit_0)
    next
      case 4 then show ?thesis
        using bit_pgn_high [OF assms, of n] bit_pgn_high [OF assms, of "n - 8"]
        by (auto simp add: bit_simps simp flip: bit_0)
    qed
  qed
  done

lemma pgn_fields_pdu1:
  assumes "g < 2 ^ 17"
  shows "push_bit 16 (ucast (ucast (drop_bit 16 g AND 1 :: u32) :: u8)) OR
         push_bit 8 (ucast (ucast (drop_bit 8 g AND 0xFF :: u32) :: u8)) 
          = push_bit 8 (drop_bit 8 (g :: u32))"
  unfolding mask_take_bit
  apply (rule bit_eqI)
  subgoal for n
  proof -
    consider "n < 8" | "8 \<le> n" "n < 16" | "n = 16" | "17 \<le> n" by linarith
    then show ?thesis
    proof cases
      case 1 then show ?thesis by (auto simp add: bit_simps)
    next
      case 2 then show ?thesis by (auto simp add: bit_simps)
    next
      case 3 then show ?thesis by (auto simp add: bit_simps simp flip: bit_0)
    next
      case 4 then show ?thesis
        using bit_pgn_high [OF assms, of n] bit_pgn_high [OF assms, of "n - 8"]
        by (auto simp add: bit_simps simp flip: bit_0)
    qed
  qed
  done

lemma extractPGN_n2k_id:
  assumes "pgn < 2 ^ 17"
  shows "extractPGN \<lparr>identifier' = n2k_id prio pgn src, extd = e, data_length_code = l, data = d\<rparr> =
     (if drop_bit 8 pgn AND 0xFF < 240 then push_bit 8 (drop_bit 8 pgn) else pgn)"
proof (cases "drop_bit 8 pgn AND 0xFF < 240")
  case True
  then show ?thesis
    by (simp add: extractPGN_def Let_def n2k_id_PF n2k_id_DP ucast_byte_less
        pgn_fields_pdu1 [OF assms])
next
  case False
  then show ?thesis
    by (simp add: extractPGN_def Let_def n2k_id_PF n2k_id_DP n2k_id_PS2 ucast_byte_less
        pgn_fields_pdu2 [OF assms])
qed

lemma ucast_prio: "prio \<le> 7 \<Longrightarrow> (ucast (ucast (prio AND 7 :: u8) AND (7 :: u32)) :: u8) = prio"
proof -
  assume "prio \<le> 7"
  then have "unat prio < 8" by (simp add: word_le_nat_alt)
  then have "prio < 2 ^ 3" by (simp add: word_less_nat_alt)
  then have p: "take_bit 3 prio = prio"
    using less_mask_eq [of prio 3] by (simp add: take_bit_eq_mask)
  show ?thesis
    unfolding mask_take_bit p
    apply (rule bit_eqI)
    subgoal for n
      using arg_cong [OF p, of "\<lambda>w. bit w n"]
      by (auto simp add: bit_simps)
    done
qed

lemma ucast_u8_u32_id: "(ucast (ucast (x :: u8) :: u32) :: u8) = x"
  by (rule bit_eqI) (auto simp: bit_simps dest: bit_imp_le_length)

text \<open>
  Claim C2, as the code has it.  For a priority of at most 7 and a PGN of at most 17 bits,
  decoding the identifier built by \<^verbatim>\<open>n2k_id\<close> gives back the priority and the source
  address; the PGN comes back whole for a PDU2 PGN and with its low byte zero for a PDU1
  PGN; a PDU2 identifier is reported as broadcast.  The encoder has no destination
  parameter: every PDU1 identifier it builds carries the destination byte \<^verbatim>\<open>0xFF\<close>,
  whatever destination the caller had in mind.
\<close>

theorem decodeIdentifier_n2k_id:
  assumes "prio \<le> 7" and "pgn < 2 ^ 17"
  shows "decodeIdentifier (n2k_id prio pgn src) =
     (prio,
      (if drop_bit 8 pgn AND 0xFF < 240 then push_bit 8 (drop_bit 8 pgn) else pgn),
      src,
      (if drop_bit 8 pgn AND 0xFF < 240 then Addr 0xFF else Broadcast))"
  using assms
  by (simp add: decodeIdentifier_def id_priority_def id_source_def id_destination_def
      extractPGN_n2k_id n2k_id_priority_bits n2k_id_source_byte n2k_id_PF n2k_id_PS1
      ucast_byte_less ucast_prio ucast_u8_u32_id)

theorem decodeIdentifier_n2k_id_witness:
  "(6 :: u8) \<le> 7 \<and> (59904 :: u32) < 2 ^ 17 \<and>
   decodeIdentifier (n2k_id 6 59904 33) = (6, 59904, 33, Addr 0xFF) \<and>
   decodeIdentifier (n2k_id 6 126996 33) = (6, 126996, 33, Broadcast)"
  using decodeIdentifier_n2k_id [of 6 59904 33] decodeIdentifier_n2k_id [of 6 126996 33]
  by simp

text \<open>
  The claim as stated quantifies over a destination that the decoder should report for a
  PDU1 frame.  For the ISO request PGN 59904 (PDU1) the decoded destination is \<^verbatim>\<open>0xFF\<close>,
  so a destination such as \<^verbatim>\<open>0x23\<close> is not reproduced.
\<close>

theorem decodeIdentifier_destination_counterexample:
  "decodeIdentifier (n2k_id 6 59904 33) = (6, 59904, 33, Addr 0xFF) \<and> Addr 0xFF \<noteq> Addr 0x23"
  by (simp add: decodeIdentifier_def id_priority_def id_source_def id_destination_def
      extractPGN_def n2k_id_def)

text \<open>
  Claim C9, as the code has it.  \<^verbatim>\<open>n2k_id\<close> keeps the low three bits of the priority
  (\<^verbatim>\<open>prio & 7\<close>): a priority above 7 wraps modulo 8, it is not clamped to 7.
\<close>

theorem n2k_id_priority_masked:
  "id_priority (n2k_id prio pgn src) = prio AND 7"
  apply (simp add: id_priority_def n2k_id_priority_bits)
  unfolding mask_take_bit
  apply (rule bit_eqI)
  subgoal for n by (auto simp add: bit_simps)
  done

text \<open>
  Priority 8 is greater than 7, and the priority field of the identifier built for it
  is 0, not 7.
\<close>

theorem n2k_id_priority_counterexample:
  "(7 :: u8) < 8 \<and> id_priority (n2k_id 8 126208 33) = 0 \<and> id_priority (n2k_id 8 126208 33) \<noteq> 7"
  by (simp add: id_priority_def n2k_id_def)

section \<open>The reassembler, step by step\<close>

lemma uint_u8_of_int: "0 \<le> k \<Longrightarrow> k < 256 \<Longrightarrow> uint (word_of_int k :: u8) = k"
  by (simp add: unsigned_of_int take_bit_int_eq_self)

lemma u8_add_no_wrap:
  "uint (a :: u8) + uint b < 256 \<Longrightarrow> uint (a + b) = uint a + uint b"
  by (simp add: uint_word_ariths take_bit_int_eq_self)

lemma cont_fill:
  fixes f t :: u8
  assumes "uint f < uint t"
  shows "uint (f + word_of_int (min 7 (uint t - uint f))) = uint f + min 7 (uint t - uint f)"
proof -
  let ?k = "min 7 (uint t - uint f)"
  have t: "uint t < 256" using uint_bounded [of t] by simp
  have k: "0 \<le> ?k" "?k < 256" using assms by auto
  have "uint f + uint (word_of_int ?k :: u8) < 256"
    using uint_u8_of_int [OF k] t by linarith
  then show ?thesis
    using u8_add_no_wrap [of f "word_of_int ?k"] uint_u8_of_int [OF k] by simp
qed

lemma first_fill:
  fixes t :: u8
  shows "uint (word_of_int (min 6 (uint t)) :: u8) = min 6 (uint t)"
  by (rule uint_u8_of_int) auto

lemma fp_inv_reset: "fp_inv gf_reset"
  by (simp add: fp_inv_def gf_reset_def)

lemma feed_short:
  "n < 2 \<Longrightarrow> feed_126208_grp g s d n = \<lparr>new_grp = g, delivered = None, copied = None\<rparr>"
  by (simp add: feed_126208_grp_def)

lemma feed_first_over:
  "2 \<le> n \<Longrightarrow> (d ! 0) AND 0x1F = 0 \<Longrightarrow> 120 < unat (d ! 1) \<Longrightarrow>
   feed_126208_grp g s d n = \<lparr>new_grp = gf_reset, delivered = None, copied = None\<rparr>"
  by (simp add: feed_126208_grp_def Let_def)

lemma feed_first:
  "2 \<le> n \<Longrightarrow> (d ! 0) AND 0x1F = 0 \<Longrightarrow> unat (d ! 1) \<le> 120 \<Longrightarrow>
   feed_126208_grp g s d n =
     (if uint (d ! 1) \<le> 6
      then \<lparr>new_grp = gf_reset,
            delivered = Some (take (unat (d ! 1)) (memcpy (replicate 120 0) 0 (drop 2 d) (uint (d ! 1)))),
            copied = Some (0, uint (d ! 1))\<rparr>
      else \<lparr>new_grp = \<lparr>active = True, sa = s, seq = drop_bit 5 (d ! 0) AND 0x07, total' = d ! 1,
                next' = 1, filled = 6, buf = memcpy (replicate 120 0) 0 (drop 2 d) 6\<rparr>,
            delivered = None, copied = Some (0, 6)\<rparr>)"
  unfolding feed_126208_grp_def Let_def
  apply (simp add: gf_reset_def word_le_def first_fill min_def)
  done

lemma feed_mismatch:
  "2 \<le> n \<Longrightarrow> (d ! 0) AND 0x1F \<noteq> 0 \<Longrightarrow>
   \<not> (active g \<and> sa g = s \<and> seq g = drop_bit 5 (d ! 0) AND 0x07 \<and> (d ! 0) AND 0x1F = next' g) \<Longrightarrow>
   feed_126208_grp g s d n = \<lparr>new_grp = gf_reset, delivered = None, copied = None\<rparr>"
  unfolding feed_126208_grp_def Let_def
  by (simp only: if_False if_True simp_thms not_less [symmetric] split: if_splits)

lemma feed_cont:
  assumes "2 \<le> n" "(d ! 0) AND 0x1F \<noteq> 0" "active g" "sa g = s"
    "seq g = drop_bit 5 (d ! 0) AND 0x07" "(d ! 0) AND 0x1F = next' g"
    "uint (filled g) < uint (total' g)"
  shows "feed_126208_grp g s d n =
     (let tk = min 7 (uint (total' g) - uint (filled g));
          b = memcpy (buf g) (uint (filled g)) (drop 1 d) tk in
      if uint (total' g) \<le> uint (filled g) + 7
      then \<lparr>new_grp = gf_reset, delivered = Some (take (unat (total' g)) b),
            copied = Some (uint (filled g), tk)\<rparr>
      else \<lparr>new_grp = g\<lparr>next' := next' g + 1, buf := b, filled := filled g + 7\<rparr>,
            delivered = None, copied = Some (uint (filled g), tk)\<rparr>)"
proof -
  have n: "\<not> n < 2" using assms by simp
  have m: "(active g \<and> sa g = s \<and> seq g = drop_bit 5 (d ! 0) AND 0x07 \<and> (d ! 0) AND 0x1F = next' g) = True"
    using assms by simp
  have f: "((d ! 0) AND 0x1F = 0) = False" using assms by simp
  note c = cont_fill [OF assms(7)]
  show ?thesis
  proof (cases "uint (total' g) \<le> uint (filled g) + 7")
    case True
    then have k: "min 7 (uint (total' g) - uint (filled g)) = uint (total' g) - uint (filled g)" by simp
    show ?thesis
      unfolding feed_126208_grp_def Let_def
      using n m f c True assms(3-6) by (simp add: word_le_def k)
  next
    case False
    then have k: "min 7 (uint (total' g) - uint (filled g)) = 7" by simp
    show ?thesis 
      unfolding feed_126208_grp_def Let_def
      using n m f c False assms(3-6) by (simp add: word_le_def k)
  qed
qed


lemma unat_le_120: "(unat (x :: u8) \<le> 120) = (uint x \<le> 120)"
proof -
  have "uint x = int (unat x)" by (rule uint_nat)
  then show ?thesis by linarith
qed

lemma feed_cases:
  fixes n :: int and d :: "u8 list" and g :: FPBuf and s :: u8
  obtains (short) "n < 2"
  | (over) "2 \<le> n" "(d ! 0) AND 0x1F = 0" "120 < unat ((d ! 1) :: u8)"
  | (first) "2 \<le> n" "(d ! 0) AND 0x1F = 0" "unat (d ! 1) \<le> 120"
  | (mismatch) "2 \<le> n" "(d ! 0) AND 0x1F \<noteq> 0"
      "\<not> (active g \<and> sa g = s \<and> seq g = drop_bit 5 (d ! 0) AND 0x07 \<and> (d ! 0) AND 0x1F = next' g)"
  | (cont) "2 \<le> n" "(d ! 0) AND 0x1F \<noteq> 0" "active g" "sa g = s"
      "seq g = drop_bit 5 (d ! 0) AND 0x07" "(d ! 0) AND 0x1F = next' g"
proof (cases "n < 2")
  case True
  then show ?thesis by (rule short)
next
  case False
  then have n: "2 \<le> n" by simp
  show ?thesis
  proof (cases "(d ! 0) AND 0x1F = 0")
    case fi: True
    show ?thesis
    proof (cases "120 < unat (d ! 1)")
      case True
      with n fi show ?thesis by (rule over)
    next
      case False
      then have "unat (d ! 1) \<le> 120" by simp
      with n fi show ?thesis by (rule first)
    qed
  next
    case fi: False
    show ?thesis
    proof (cases "active g \<and> sa g = s \<and> seq g = drop_bit 5 (d ! 0) AND 0x07 \<and> (d ! 0) AND 0x1F = next' g")
      case True
      then have "active g" "sa g = s" "seq g = drop_bit 5 (d ! 0) AND 0x07" "(d ! 0) AND 0x1F = next' g"
        by blast+
      with n fi show ?thesis by (rule cont)
    next
      case False
      with n fi show ?thesis by (rule mismatch)
    qed
  qed
qed

lemma fp_inv_feed:
  assumes "fp_inv g"
  shows "fp_inv (new_grp (feed_126208_grp g s d n))"
proof (cases rule: feed_cases [where n=n and d=d and g=g and s=s])
  case short
  then show ?thesis using assms by (simp add: feed_short)
next
  case over
  then show ?thesis by (simp add: feed_first_over fp_inv_reset)
next
  case first
  then show ?thesis
    by (simp add: feed_first fp_inv_reset unat_le_120) (simp add: fp_inv_def)
next
  case mismatch
  then show ?thesis by (simp add: feed_mismatch fp_inv_reset)
next
  case cont
  have lt: "uint (filled g) < uint (total' g)" using assms cont(3) by (simp add: fp_inv_def)
  have "uint (filled g + 7) = uint (filled g) + 7" if "\<not> uint (total' g) \<le> uint (filled g) + 7"
    using cont_fill [OF lt] that by (simp add: min_def)
  then show ?thesis
    using assms lt
    by (simp add: feed_cont [OF cont lt] Let_def fp_inv_reset) (simp add: fp_inv_def)
qed

lemma fp_inv_feed_frames: "fp_inv g \<Longrightarrow> fp_inv (feed_frames g ms)"
  by (induction ms arbitrary: g) (simp_all add: fp_inv_feed)

lemma feed_copied:
  assumes "fp_inv g"
  shows "case copied (feed_126208_grp g s d n) of
           None \<Rightarrow> True
         | Some (off, cnt) \<Rightarrow>
             0 \<le> off \<and> 0 \<le> cnt \<and> off + cnt \<le> 120 \<and>
             (if (d ! 0) AND 0x1F = 0
              then off = 0 \<and> cnt = min 6 (uint (d ! 1))
              else off = uint (filled g) \<and> cnt = min 7 (uint (total' g) - uint (filled g)) \<and>
                   off + cnt \<le> uint (total' g))"
proof (cases rule: feed_cases [where n=n and d=d and g=g and s=s])
  case short
  then show ?thesis by (simp add: feed_short)
next
  case over
  then show ?thesis by (simp add: feed_first_over)
next
  case first
  then show ?thesis by (simp add: feed_first unat_le_120)
next
  case mismatch
  then show ?thesis by (simp add: feed_mismatch)
next
  case cont
  have lt: "uint (filled g) < uint (total' g)" using assms cont(3) by (simp add: fp_inv_def)
  have "uint (total' g) \<le> 120" using assms by (simp add: fp_inv_def)
  then show ?thesis
    using lt cont(2) by (simp add: feed_cont [OF cont lt] Let_def) 
qed

lemma feed_delivered:
  assumes "fp_inv g" and "delivered (feed_126208_grp g s d n) = Some p"
  shows "2 \<le> n \<and>
     (if (d ! 0) AND 0x1F = 0
      then uint (d ! 1) \<le> 120 \<and> min 6 (uint (d ! 1)) = uint (d ! 1)
      else active g \<and> sa g = s \<and> seq g = drop_bit 5 (d ! 0) AND 0x07 \<and> next' g = (d ! 0) AND 0x1F \<and>
           uint (filled g) + min 7 (uint (total' g) - uint (filled g)) = uint (total' g))"
proof (cases rule: feed_cases [where n=n and d=d and g=g and s=s])
  case short
  then show ?thesis using assms(2) by (simp add: feed_short)
next
  case over
  then show ?thesis using assms(2) by (simp add: feed_first_over)
next
  case first
  then show ?thesis using assms(2) by (simp add: feed_first unat_le_120 split: if_splits)
next
  case mismatch
  then show ?thesis using assms(2) by (simp add: feed_mismatch)
next
  case cont
  have lt: "uint (filled g) < uint (total' g)" using assms cont(3) by (simp add: fp_inv_def)
  show ?thesis
    using lt cont assms(2) by (simp add: feed_cont [OF cont lt] Let_def split: if_splits) 
qed


lemma unat_gt_120: "(120 < unat (x :: u8)) = (120 < uint x)"
proof -
  have "uint x = int (unat x)" by (rule uint_nat)
  then show ?thesis by linarith
qed

lemma fp_inv_reachable: "fp_inv (feed_frames gf_reset ms)"
  by (simp add: fp_inv_feed_frames fp_inv_reset)

text \<open>
  Claim C10.  In every reachable state the fill count is at most the declared total,
  which is at most 120.  Every copy into the buffer lies inside its 120 bytes: a first
  segment copies \<open>min 6 total\<close> bytes at offset 0, a continuation copies
  \<open>min 7 (total - filled)\<close> bytes at offset \<open>filled\<close> and ends at or before the declared
  total.  A first segment that declares more than 120 bytes is discarded before any
  byte is copied.
\<close>

theorem feed_126208_buffer_bounds:
  assumes "g = feed_frames gf_reset ms" and "r = feed_126208_grp g s d n"
  shows "uint (filled g) \<le> uint (total' g) \<and> uint (total' g) \<le> 120 \<and>
         (\<forall>off cnt. copied r = Some (off, cnt) \<longrightarrow>
            0 \<le> off \<and> 0 \<le> cnt \<and> off + cnt \<le> 120 \<and>
            (if (d ! 0) AND 0x1F = 0
             then off = 0 \<and> cnt = min 6 (uint (d ! 1))
             else off = uint (filled g) \<and>
                  cnt = min 7 (uint (total' g) - uint (filled g)) \<and>
                  off + cnt \<le> uint (total' g))) \<and>
         (2 \<le> n \<and> (d ! 0) AND 0x1F = 0 \<and> 120 < uint (d ! 1) \<longrightarrow>
            copied r = None \<and> new_grp r = gf_reset)"
proof (intro conjI allI impI)
  have i: "fp_inv g" using assms(1) fp_inv_reachable by simp
  then show "uint (filled g) \<le> uint (total' g)" "uint (total' g) \<le> 120"
    by (simp_all add: fp_inv_def)
  fix off cnt assume c: "copied r = Some (off, cnt)"
  have f: "0 \<le> off \<and> 0 \<le> cnt \<and> off + cnt \<le> 120 \<and>
    (if (d ! 0) AND 0x1F = 0
     then off = 0 \<and> cnt = min 6 (uint (d ! 1))
     else off = uint (filled g) \<and>
          cnt = min 7 (uint (total' g) - uint (filled g)) \<and>
          off + cnt \<le> uint (total' g))"
  proof -
    have "copied (feed_126208_grp g s d n) = Some (off, cnt)" using c assms(2) by simp
    then show ?thesis
      using feed_copied [OF i, where s=s and d=d and n=n]
      by (simp only: option.case prod.case) blast
  qed
  show "0 \<le> off" "0 \<le> cnt" "off + cnt \<le> 120"
    "if (d ! 0) AND 0x1F = 0
     then off = 0 \<and> cnt = min 6 (uint (d ! 1))
     else off = uint (filled g) \<and>
          cnt = min 7 (uint (total' g) - uint (filled g)) \<and>
          off + cnt \<le> uint (total' g)"
    using f by blast+
next
  assume a: "2 \<le> n \<and> (d ! 0) AND 0x1F = 0 \<and> 120 < uint (d ! 1)"
  then have "feed_126208_grp g s d n = \<lparr>new_grp = gf_reset, delivered = None, copied = None\<rparr>"
    by (intro feed_first_over) (simp_all add: unat_gt_120)
  then show "copied r = None" "new_grp r = gf_reset" using assms(2) by simp_all
qed


lemma wit_state:
  "feed_frames gf_reset
     [\<lparr>identifier' = 0x19EDFF21, extd = True, data_length_code = 8,
       data = [0x60, 9, 1, 2, 3, 4, 5, 6]\<rparr>] =
   \<lparr>active = True, sa = 33, seq = 3, total' = 9, next' = 1, filled = 6,
     buf = [1, 2, 3, 4, 5, 6] @ replicate 114 0\<rparr>"
  by (simp add: feed_126208_grp_def id_source_def gf_reset_def memcpy_def Let_def)

theorem feed_126208_buffer_bounds_witness:
  "copied (feed_126208_grp
      (feed_frames gf_reset
        [\<lparr>identifier' = 0x19EDFF21, extd = True, data_length_code = 8,
          data = [0x60, 9, 1, 2, 3, 4, 5, 6]\<rparr>])
      33 [0x61, 7, 8, 9, 0xFF, 0xFF, 0xFF, 0xFF] 8) = Some (6, 3) \<and>
   (6 :: int) + 3 \<le> 120 \<and>
   (2 :: int) \<le> 8 \<and> ([0x60, 200, 1, 2, 3, 4, 5, 6] ! 0) AND 0x1F = (0 :: u8) \<and>
   120 < uint ([0x60, 200, 1, 2, 3, 4, 5, 6 :: u8] ! 1) \<and>
   copied (feed_126208_grp (feed_frames gf_reset []) 33
      [0x60, 200, 1, 2, 3, 4, 5, 6] 8) = None"
  using
    feed_126208_buffer_bounds [OF refl refl,
      of "[\<lparr>identifier' = 0x19EDFF21, extd = True, data_length_code = 8,
          data = [0x60, 9, 1, 2, 3, 4, 5, 6]\<rparr>]" 33 "[0x61, 7, 8, 9, 0xFF, 0xFF, 0xFF, 0xFF]" 8]
    feed_126208_buffer_bounds [OF refl refl,
      of "[]" 33 "[0x60, 200, 1, 2, 3, 4, 5, 6]" 8]
  unfolding wit_state
  by (simp add: feed_126208_grp_def gf_reset_def memcpy_def Let_def)

lemma and_1F_take_bit: "(x :: 'a::len word) AND 0x1F = take_bit 5 x"
  by (simp add: take_bit_eq_mask mask_eq_exp_minus_1)

lemma first_header_index: "(push_bit 5 (sq :: u8) OR 0) AND 0x1F = 0"
  unfolding and_1F_take_bit
  by (rule bit_eqI) (auto simp add: bit_simps)

lemma header_index:
  assumes "unat (idx :: u8) \<le> 31"
  shows "(push_bit 5 (sq :: u8) OR (idx AND 0x1F)) AND 0x1F = idx"
proof -
  have "idx < 2 ^ 5" using assms by (simp add: word_less_nat_alt)
  then have i: "take_bit 5 idx = idx"
    using less_mask_eq [of idx 5] by (simp add: take_bit_eq_mask)
  show ?thesis
    unfolding and_1F_take_bit i
    apply (rule bit_eqI)
    subgoal for n
      using arg_cong [OF i, of "\<lambda>w. bit w n"]
      by (auto simp add: bit_simps)
    done
qed

lemma header_seq:
  assumes "sq = (ucast (drop_bit 5 (now :: u32) AND 0x07) :: u8)"
  shows "drop_bit 5 (push_bit 5 sq OR (idx AND 0x1F)) AND 0x07 = sq"
  unfolding assms and_1F_take_bit mask_take_bit
  apply (rule bit_eqI)
  subgoal for n
    by (cases "n < 3") (auto simp add: bit_simps)
  done

lemma header_seq0:
  assumes "sq = (ucast (drop_bit 5 (now :: u32) AND 0x07) :: u8)"
  shows "drop_bit 5 (push_bit 5 sq OR 0) AND 0x07 = sq"
  unfolding assms and_1F_take_bit mask_take_bit
  apply (rule bit_eqI)
  subgoal for n
    by (cases "n < 3") (auto simp add: bit_simps)
  done

lemma id_source_n2k_id: "id_source (n2k_id prio pgn src) = src"
  by (simp add: id_source_def n2k_id_source_byte ucast_u8_u32_id)

lemma twai_tx_8:
  "length d = 8 \<Longrightarrow> twai_tx ident d 8 =
     \<lparr>identifier' = ident, extd = True, data_length_code = 8, data = d\<rparr>"
  by (simp add: twai_tx_def)

lemma fp_chunk_le: "fp_chunk len sent \<le> 7" "fp_chunk len sent \<le> len - sent"
  by (simp_all add: fp_chunk_def)

lemma fp_chunk_int: "sent < len \<Longrightarrow> int (fp_chunk len sent) = min 7 (int len - int sent)"
  unfolding fp_chunk_def min_def by (cases "7 < len - sent") (simp_all, linarith+)

lemma memcpy_extend:
  assumes "take sent B = take sent p" "length B = 120" "sent + t \<le> length p" "sent + t \<le> 120"
  shows "take (sent + t) (memcpy B (int sent) (take t (drop sent p) @ pad) (int t)) = take (sent + t) p"
    and "length (memcpy B (int sent) (take t (drop sent p) @ pad) (int t)) = 120"
proof -
  have l: "length (take t (drop sent p)) = t" using assms(3) by simp
  have m: "memcpy B (int sent) (take t (drop sent p) @ pad) (int t) =
        take sent p @ take t (drop sent p) @ drop (sent + t) B"
    using l assms(1) by (simp add: memcpy_def)
  have "take (sent + t) (take sent p @ take t (drop sent p) @ drop (sent + t) B) =
        take sent p @ take t (drop sent p)"
    using l assms(3) by simp
  also have "\<dots> = take (sent + t) p" by (simp add: take_add)
  finally show "take (sent + t) (memcpy B (int sent) (take t (drop sent p) @ pad) (int t)) = take (sent + t) p"
    using m by simp
  show "length (memcpy B (int sent) (take t (drop sent p) @ pad) (int t)) = 120"
    unfolding m using l assms by simp
qed

lemma reassemble_step:
  assumes "length d = 8" "id_source ident = src"
  shows "reassemble g (twai_tx ident d 8 # ms) =
     (case delivered (feed_126208_grp g src d 8) of None \<Rightarrow> [] | Some p \<Rightarrow> [p]) @
     reassemble (new_grp (feed_126208_grp g src d 8)) ms"
  using assms by (simp add: twai_tx_8 Let_def)

lemma loop_frame_length:
  assumes "sent < len" "len = length p"
  shows "length (h # take (fp_chunk len sent) (drop sent p) @ replicate (7 - fp_chunk len sent) x) = 8"
  using assms fp_chunk_le [of len sent] by simp

lemma reassemble_loop:
  "sq = (ucast (drop_bit 5 (now :: u32) AND 0x07) :: u8) \<Longrightarrow> id_source ident = src \<Longrightarrow>
   L = length p \<Longrightarrow> L \<le> 120 \<Longrightarrow> sent < L \<Longrightarrow> active g \<Longrightarrow> sa g = src \<Longrightarrow> seq g = sq \<Longrightarrow>
   uint (total' g) = int L \<Longrightarrow> uint (filled g) = int sent \<Longrightarrow> next' g = idx \<Longrightarrow>
   7 * unat idx = sent + 1 \<Longrightarrow> take sent (buf g) = take sent p \<Longrightarrow> length (buf g) = 120 \<Longrightarrow>
   reassemble g (n2k_send_fast_loop ident sq p L sent idx) = [p]"
proof (induction ident sq p L sent idx arbitrary: g rule: n2k_send_fast_loop.induct)
  case (1 ident sq p len sent idx)
  let ?t = "fp_chunk len sent"
  let ?d = "(push_bit 5 sq OR (idx AND 0x1F)) # take ?t (drop sent p) @ replicate (7 - ?t) 0xFF"
  note sent = \<open>sent < len\<close>
  have ld: "length ?d = 8" using loop_frame_length [OF sent \<open>len = length p\<close>] .
  have idx: "unat idx \<le> 31" "idx \<noteq> 0"
    using \<open>7 * unat idx = sent + 1\<close> sent \<open>len \<le> 120\<close> by auto
  have fi: "(?d ! 0) AND 0x1F = idx" using header_index [OF idx(1)] by simp
  have sqd: "drop_bit 5 (?d ! 0) AND 0x07 = sq" using header_seq [OF "1.prems"(1)] by simp
  have lt: "uint (filled g) < uint (total' g)"
    using sent \<open>uint (total' g) = int len\<close> \<open>uint (filled g) = int sent\<close> by simp
  have unf: "n2k_send_fast_loop ident sq p len sent idx =
      twai_tx ident ?d 8 # n2k_send_fast_loop ident sq p len (sent + ?t) (idx + 1)"
    by (subst n2k_send_fast_loop.simps) (simp add: sent)
  have tk: "min 7 (uint (total' g) - uint (filled g)) = int ?t"
    using fp_chunk_int [OF sent] \<open>uint (total' g) = int len\<close> \<open>uint (filled g) = int sent\<close> by simp
  have st: "feed_126208_grp g src ?d 8 =
     (let tk = min 7 (uint (total' g) - uint (filled g));
          b = memcpy (buf g) (uint (filled g)) (drop 1 ?d) tk in
      if uint (total' g) \<le> uint (filled g) + 7
      then \<lparr>new_grp = gf_reset, delivered = Some (take (unat (total' g)) b),
            copied = Some (uint (filled g), tk)\<rparr>
      else \<lparr>new_grp = g\<lparr>next' := next' g + 1, buf := b, filled := filled g + 7\<rparr>,
            delivered = None, copied = Some (uint (filled g), tk)\<rparr>)"
    using fi sqd idx(2) lt \<open>active g\<close> \<open>sa g = src\<close> \<open>seq g = sq\<close> \<open>next' g = idx\<close>
    by (intro feed_cont) simp_all
  have tl: "sent + ?t \<le> length p" "sent + ?t \<le> 120"
    using fp_chunk_le(2) [of len sent] sent \<open>len = length p\<close> \<open>len \<le> 120\<close> by simp_all
  note mc = memcpy_extend [OF \<open>take sent (buf g) = take sent p\<close> \<open>length (buf g) = 120\<close> tl,
      of "replicate (7 - ?t) 0xFF"]
  have b: "memcpy (buf g) (uint (filled g)) (drop 1 ?d) (min 7 (uint (total' g) - uint (filled g))) =
           memcpy (buf g) (int sent) (take ?t (drop sent p) @ replicate (7 - ?t) 0xFF) (int ?t)"
    using tk \<open>uint (filled g) = int sent\<close> by simp
  have ut: "unat (total' g) = len" using \<open>uint (total' g) = int len\<close> by (simp add: unat_eq_nat_uint)
  show ?case
  proof (cases "len \<le> sent + 7")
    case True
    then have t: "?t = len - sent" by (simp add: fp_chunk_def)
    then have e: "sent + ?t = len" using sent by simp
    have rest: "n2k_send_fast_loop ident sq p len (sent + ?t) (idx + 1) = []"
      by (subst n2k_send_fast_loop.simps) (simp add: e)
    have full: "take len (memcpy (buf g) (int sent)
        (take ?t (drop sent p) @ replicate (7 - ?t) 0xFF) (int ?t)) = p"
      using mc(1) unfolding e using \<open>len = length p\<close> by simp
    have c: "uint (total' g) \<le> uint (filled g) + 7"
      using True \<open>uint (total' g) = int len\<close> \<open>uint (filled g) = int sent\<close> by simp
    have dl: "delivered (feed_126208_grp g src ?d 8) = Some p"
      unfolding st Let_def b ut using c full by simp
    show ?thesis
      unfolding unf reassemble_step [OF ld \<open>id_source ident = src\<close>] rest dl by simp
  next
    case False
    then have t: "?t = 7" by (simp add: fp_chunk_def)
    let ?g = "g\<lparr>next' := next' g + 1,
               buf := memcpy (buf g) (int sent) (take ?t (drop sent p) @ replicate (7 - ?t) 0xFF) (int ?t),
               filled := filled g + 7\<rparr>"
    have c: "\<not> uint (total' g) \<le> uint (filled g) + 7"
      using False \<open>uint (total' g) = int len\<close> \<open>uint (filled g) = int sent\<close> by simp
    have r: "feed_126208_grp g src ?d 8 =
      \<lparr>new_grp = ?g, delivered = None, copied = Some (int sent, 7)\<rparr>"
      unfolding st Let_def b using c \<open>uint (filled g) = int sent\<close> tk t by simp
    have f7: "uint (filled g + 7) = int (sent + 7)"
      using cont_fill [OF lt] tk t \<open>uint (filled g) = int sent\<close> by simp
    have i1: "unat (idx + 1) = unat idx + 1"
      using idx(1) by (simp add: unat_word_ariths)
    have ih: "reassemble ?g (n2k_send_fast_loop ident sq p len (sent + ?t) (idx + 1)) = [p]"
    proof (rule "1.IH" [OF sent])
      show "sq = ucast (drop_bit 5 now AND 7)" by fact
      show "id_source ident = src" by fact
      show "len = length p" by fact
      show "len \<le> 120" by fact
      show "sent + ?t < len" using False t by simp
      show "active ?g" using \<open>active g\<close> by simp
      show "sa ?g = src" using \<open>sa g = src\<close> by simp
      show "seq ?g = sq" using \<open>seq g = sq\<close> by simp
      show "uint (total' ?g) = int len" using \<open>uint (total' g) = int len\<close> by simp
      show "uint (filled ?g) = int (sent + ?t)" using f7 t by simp
      show "next' ?g = idx + 1" using \<open>next' g = idx\<close> by simp
      show "7 * unat (idx + 1) = sent + ?t + 1" using i1 t \<open>7 * unat idx = sent + 1\<close> by simp
      show "take (sent + ?t) (buf ?g) = take (sent + ?t) p" using mc(1) by simp
      show "length (buf ?g) = 120" using mc(2) by simp
    qed
    show ?thesis
      unfolding unf reassemble_step [OF ld \<open>id_source ident = src\<close>] r using ih by simp
  qed
qed

lemma skip_index_simps:
  "skip_index 0 (m # ms) = bump_index m # ms"
  "skip_index (Suc k) (m # ms) = m # skip_index k ms"
  by (simp_all add: skip_index_def)

lemma bump_index_twai_tx:
  "length d = 8 \<Longrightarrow> bump_index (twai_tx ident d 8) =
     twai_tx ident (d[0 := ((d ! 0) AND 0xE0) OR (((d ! 0) + 1) AND 0x1F)]) 8"
  by (simp add: bump_index_def twai_tx_def)

lemma and_E0_drop: "drop_bit 5 (((x :: u8) AND 0xE0) OR (y AND 0x1F)) AND 0x07 = drop_bit 5 x AND 0x07"
proof -
  have e: "(0xE0 :: u8) = push_bit 5 (take_bit 3 (- 1))" by (simp add: mask_eq_exp_minus_1)
  show ?thesis
    unfolding and_1F_take_bit mask_take_bit e
    apply (rule bit_eqI)
    subgoal for n
      by (cases "n < 3") (auto simp add: bit_simps)
    done
qed

lemma and_E0_index: "(((x :: u8) AND 0xE0) OR (y AND 0x1F)) AND 0x1F = y AND 0x1F"
proof -
  have e: "(0xE0 :: u8) = push_bit 5 (take_bit 3 (- 1))" by (simp add: mask_eq_exp_minus_1)
  show ?thesis
    unfolding and_1F_take_bit mask_take_bit e
    apply (rule bit_eqI)
    subgoal for n
      by (cases "n < 5") (auto simp add: bit_simps)
    done
qed

lemma bumped_index:
  assumes "unat (idx :: u8) < 31"
  shows "((push_bit 5 (sq :: u8) OR (idx AND 0x1F)) + 1) AND 0x1F = idx + 1"
proof -
  let ?x = "push_bit 5 sq OR (idx AND 0x1F)"
  have "unat idx \<le> 31" using assms by simp
  then have x: "take_bit 5 ?x = idx" using header_index [of idx sq] by (simp add: and_1F_take_bit)
  have "unat (idx + 1) = (unat idx + unat (1 :: u8)) mod 2 ^ LENGTH(8)"
    by (rule unat_word_ariths(1))
  then have "unat (idx + 1) = unat idx + 1" using assms by simp
  then have "unat (idx + 1) < 32" using assms by simp
  then have "idx + 1 < 2 ^ 5" unfolding word_less_nat_alt by simp
  then have i: "take_bit 5 (idx + 1) = idx + 1"
    using less_mask_eq [of "idx + 1" 5] by (simp add: take_bit_eq_mask)
  have "take_bit 5 (?x + 1) = take_bit 5 (take_bit 5 ?x + 1)"
  proof -
    have d: "(32 :: nat) dvd 256" by simp
    have tb: "unat (take_bit 5 w) = unat w mod 32" for w :: u8
      by (simp add: take_bit_eq_mod unat_mod)
    have su: "unat (w + 1) = (unat w + 1) mod 256" for w :: u8
      using unat_word_ariths(1) [of w 1] by simp
    have a: "unat (take_bit 5 (?x + 1)) = (unat ?x + 1) mod 32"
      unfolding tb su by (rule mod_mod_cancel [OF d])
    have b: "unat (take_bit 5 (take_bit 5 ?x + 1)) = (unat ?x mod 32 + 1) mod 32"
      unfolding tb su by (rule mod_mod_cancel [OF d])
    have "(unat ?x mod 32 + 1) mod 32 = (unat ?x + 1) mod 32" by (rule mod_add_left_eq)
    then show ?thesis using a b by (simp add: word_unat_eq_iff)
  qed
  then have "take_bit 5 (?x + 1) = take_bit 5 (idx + 1)" unfolding x by simp
  then show ?thesis unfolding and_1F_take_bit i .
qed

lemma gf_reset_inactive: "\<not> active gf_reset"
  by (simp add: gf_reset_def)

lemma loop_unfold:
  "sent < len \<Longrightarrow> n2k_send_fast_loop ident sq p len sent idx =
      twai_tx ident ((push_bit 5 sq OR (idx AND 0x1F)) #
            take (fp_chunk len sent) (drop sent p) @
            replicate (7 - fp_chunk len sent) 0xFF) 8
      # n2k_send_fast_loop ident sq p len (sent + fp_chunk len sent) (idx + 1)"
  by (subst n2k_send_fast_loop.simps) simp

lemma loop_done: "\<not> sent < len \<Longrightarrow> n2k_send_fast_loop ident sq p len sent idx = []"
  by (subst n2k_send_fast_loop.simps) simp

lemma unat_suc_u8: "unat (idx :: u8) < 255 \<Longrightarrow> unat (idx + 1) = unat idx + 1"
  using unat_word_ariths(1) [of idx 1] by simp

text \<open>Continuation frames fed to an inactive reassembler deliver nothing.\<close>

lemma reassemble_loop_inactive:
  "id_source ident = src \<Longrightarrow> L = length p \<Longrightarrow> L \<le> 223 \<Longrightarrow>
   (sent < L \<longrightarrow> 7 * unat idx = sent + 1) \<Longrightarrow> \<not> active g \<Longrightarrow>
   reassemble g (n2k_send_fast_loop ident sq p L sent idx) = []"
proof (induction ident sq p L sent idx arbitrary: g rule: n2k_send_fast_loop.induct)
  case (1 ident sq p len sent idx)
  show ?case
  proof (cases "sent < len")
    case False
    then show ?thesis by (simp add: loop_done)
  next
    case sent: True
    let ?t = "fp_chunk len sent"
    let ?d = "(push_bit 5 sq OR (idx AND 0x1F)) # take ?t (drop sent p) @ replicate (7 - ?t) 0xFF"
    have inv: "7 * unat idx = sent + 1" using "1.prems"(4) sent by simp
    have ld: "length ?d = 8" using loop_frame_length [OF sent \<open>len = length p\<close>] .
    have idx: "unat idx \<le> 31" "idx \<noteq> 0"
      using inv sent \<open>len \<le> 223\<close> by auto
    have fi: "(?d ! 0) AND 0x1F \<noteq> 0" using header_index [OF idx(1)] idx(2) by simp
    have st: "feed_126208_grp g src ?d 8 = \<lparr>new_grp = gf_reset, delivered = None, copied = None\<rparr>"
      using fi \<open>\<not> active g\<close> by (intro feed_mismatch) simp_all
    have ih: "reassemble gf_reset (n2k_send_fast_loop ident sq p len (sent + ?t) (idx + 1)) = []"
    proof (rule "1.IH" [OF sent])
      show "id_source ident = src" "len = length p" "len \<le> 223" by fact+
      show "\<not> active gf_reset" by (rule gf_reset_inactive)
      show "sent + ?t < len \<longrightarrow> 7 * unat (idx + 1) = sent + ?t + 1"
      proof
        assume "sent + ?t < len"
        then have "?t = 7" by (simp add: fp_chunk_def split: if_splits)
        then show "7 * unat (idx + 1) = sent + ?t + 1"
          using unat_suc_u8 [of idx] idx(1) inv by simp
      qed
    qed
    show ?thesis
      unfolding loop_unfold [OF sent] reassemble_step [OF ld \<open>id_source ident = src\<close>] st
      using ih by simp
  qed
qed

text \<open>One continuation frame with a skipped index: nothing is delivered.\<close>

lemma reassemble_loop_skip:
  "sq = (ucast (drop_bit 5 (now :: u32) AND 0x07) :: u8) \<Longrightarrow> id_source ident = src \<Longrightarrow>
   L = length p \<Longrightarrow> L \<le> 120 \<Longrightarrow> sent < L \<Longrightarrow> active g \<Longrightarrow> sa g = src \<Longrightarrow> seq g = sq \<Longrightarrow>
   uint (total' g) = int L \<Longrightarrow> uint (filled g) = int sent \<Longrightarrow> next' g = idx \<Longrightarrow>
   7 * unat idx = sent + 1 \<Longrightarrow> take sent (buf g) = take sent p \<Longrightarrow> length (buf g) = 120 \<Longrightarrow>
   j < length (n2k_send_fast_loop ident sq p L sent idx) \<Longrightarrow>
   reassemble g (skip_index j (n2k_send_fast_loop ident sq p L sent idx)) = []"
proof (induction ident sq p L sent idx arbitrary: g j rule: n2k_send_fast_loop.induct)
  case (1 ident sq p len sent idx)
  let ?t = "fp_chunk len sent"
  let ?d = "(push_bit 5 sq OR (idx AND 0x1F)) # take ?t (drop sent p) @ replicate (7 - ?t) 0xFF"
  let ?rest = "n2k_send_fast_loop ident sq p len (sent + ?t) (idx + 1)"
  note sent = \<open>sent < len\<close>
  note inv = \<open>7 * unat idx = sent + 1\<close>
  have ld: "length ?d = 8" using loop_frame_length [OF sent \<open>len = length p\<close>] .
  have idx: "unat idx < 31" "idx \<noteq> 0"
    using inv sent \<open>len \<le> 120\<close> by auto
  have unf: "n2k_send_fast_loop ident sq p len sent idx = twai_tx ident ?d 8 # ?rest"
    by (rule loop_unfold [OF sent])
  have nxt: "sent + ?t < len \<longrightarrow> 7 * unat (idx + 1) = sent + ?t + 1"
  proof
    assume "sent + ?t < len"
    then have "?t = 7" by (simp add: fp_chunk_def split: if_splits)
    then show "7 * unat (idx + 1) = sent + ?t + 1"
      using unat_suc_u8 [of idx] idx(1) inv by simp
  qed
  show ?case
  proof (cases j)
    case 0
    let ?d' = "?d[0 := ((?d ! 0) AND 0xE0) OR (((?d ! 0) + 1) AND 0x1F)]"
    have ld': "length ?d' = 8" using ld by simp
    have d0: "?d' ! 0 = ((push_bit 5 sq OR (idx AND 0x1F)) AND 0xE0) OR
        (((push_bit 5 sq OR (idx AND 0x1F)) + 1) AND 0x1F)"
      by simp
    have fi: "(?d' ! 0) AND 0x1F = idx + 1"
      unfolding d0 and_E0_index by (rule bumped_index [OF idx(1)])
    have "unat (idx + 1) = unat idx + 1" using unat_suc_u8 [of idx] idx(1) by simp
    then have ne: "idx + 1 \<noteq> 0" "idx + 1 \<noteq> idx"
      by (auto simp add: word_unat_eq_iff)
    have st: "feed_126208_grp g src ?d' 8 = \<lparr>new_grp = gf_reset, delivered = None, copied = None\<rparr>"
      using fi ne \<open>next' g = idx\<close> by (intro feed_mismatch) simp_all
    have r: "reassemble gf_reset ?rest = []"
      using \<open>id_source ident = src\<close> \<open>len = length p\<close> \<open>len \<le> 120\<close> nxt gf_reset_inactive
      by (intro reassemble_loop_inactive [where src = src]) simp_all
    show ?thesis
      unfolding unf 0 skip_index_simps bump_index_twai_tx [OF ld]
        reassemble_step [OF ld' \<open>id_source ident = src\<close>] st
      using r by simp
  next
    case (Suc j')
    then have jr: "j' < length ?rest" using "1.prems"(15) unfolding unf by simp
    then have more: "sent + ?t < len"
      by (cases "sent + ?t < len") (simp_all add: loop_done)
    then have t: "?t = 7" by (simp add: fp_chunk_def split: if_splits)
    have fi: "(?d ! 0) AND 0x1F = idx" using header_index [of idx sq] idx(1) by simp
    have sqd: "drop_bit 5 (?d ! 0) AND 0x07 = sq" using header_seq [OF "1.prems"(1)] by simp
    have lt: "uint (filled g) < uint (total' g)"
      using sent \<open>uint (total' g) = int len\<close> \<open>uint (filled g) = int sent\<close> by simp
    have tk: "min 7 (uint (total' g) - uint (filled g)) = int ?t"
      using fp_chunk_int [OF sent] \<open>uint (total' g) = int len\<close> \<open>uint (filled g) = int sent\<close> by simp
    have st: "feed_126208_grp g src ?d 8 =
       (let tk = min 7 (uint (total' g) - uint (filled g));
            b = memcpy (buf g) (uint (filled g)) (drop 1 ?d) tk in
        if uint (total' g) \<le> uint (filled g) + 7
        then \<lparr>new_grp = gf_reset, delivered = Some (take (unat (total' g)) b),
              copied = Some (uint (filled g), tk)\<rparr>
        else \<lparr>new_grp = g\<lparr>next' := next' g + 1, buf := b, filled := filled g + 7\<rparr>,
              delivered = None, copied = Some (uint (filled g), tk)\<rparr>)"
      using fi sqd idx(2) lt \<open>active g\<close> \<open>sa g = src\<close> \<open>seq g = sq\<close> \<open>next' g = idx\<close>
      by (intro feed_cont) simp_all
    have tl: "sent + ?t \<le> length p" "sent + ?t \<le> 120"
      using fp_chunk_le(2) [of len sent] sent \<open>len = length p\<close> \<open>len \<le> 120\<close> by simp_all
    note mc = memcpy_extend [OF \<open>take sent (buf g) = take sent p\<close> \<open>length (buf g) = 120\<close> tl,
        of "replicate (7 - ?t) 0xFF"]
    have b: "memcpy (buf g) (uint (filled g)) (drop 1 ?d) (min 7 (uint (total' g) - uint (filled g))) =
             memcpy (buf g) (int sent) (take ?t (drop sent p) @ replicate (7 - ?t) 0xFF) (int ?t)"
      using tk \<open>uint (filled g) = int sent\<close> by simp
    let ?g = "g\<lparr>next' := next' g + 1,
               buf := memcpy (buf g) (int sent) (take ?t (drop sent p) @ replicate (7 - ?t) 0xFF) (int ?t),
               filled := filled g + 7\<rparr>"
    have c: "\<not> uint (total' g) \<le> uint (filled g) + 7"
      using more t \<open>uint (total' g) = int len\<close> \<open>uint (filled g) = int sent\<close> by simp
    have r: "feed_126208_grp g src ?d 8 =
      \<lparr>new_grp = ?g, delivered = None, copied = Some (int sent, 7)\<rparr>"
      unfolding st Let_def b using c \<open>uint (filled g) = int sent\<close> tk t by simp
    have f7: "uint (filled g + 7) = int (sent + 7)"
      using cont_fill [OF lt] tk t \<open>uint (filled g) = int sent\<close> by simp
    have ih: "reassemble ?g (skip_index j' ?rest) = []"
    proof (rule "1.IH" [OF sent])
      show "sq = ucast (drop_bit 5 now AND 7)" by fact
      show "id_source ident = src" by fact
      show "len = length p" by fact
      show "len \<le> 120" by fact
      show "sent + ?t < len" by (rule more)
      show "active ?g" using \<open>active g\<close> by simp
      show "sa ?g = src" using \<open>sa g = src\<close> by simp
      show "seq ?g = sq" using \<open>seq g = sq\<close> by simp
      show "uint (total' ?g) = int len" using \<open>uint (total' g) = int len\<close> by simp
      show "uint (filled ?g) = int (sent + ?t)" using f7 t by simp
      show "next' ?g = idx + 1" using \<open>next' g = idx\<close> by simp
      show "7 * unat (idx + 1) = sent + ?t + 1" using nxt more by simp
      show "take (sent + ?t) (buf ?g) = take (sent + ?t) p" using mc(1) by simp
      show "length (buf ?g) = 120" using mc(2) by simp
      show "j' < length ?rest" by (rule jr)
    qed
    show ?thesis
      unfolding unf Suc skip_index_simps reassemble_step [OF ld \<open>id_source ident = src\<close>] r
      using ih by simp
  qed
qed

lemma send_fast_unfold:
  assumes "unat len = length p"
  shows "n2k_send_fast now pgn p len prio =
     twai_tx (n2k_id prio pgn SA)
       ([push_bit 5 (ucast (drop_bit 5 now AND 0x07) :: u8) OR 0, ucast len] @
         take (min 6 (length p)) p @ replicate (6 - min 6 (length p)) 0xFF) 8
     # n2k_send_fast_loop (n2k_id prio pgn SA) (ucast (drop_bit 5 now AND 0x07)) p (length p)
         (min 6 (length p)) 1"
proof -
  have "(6 < len) = (6 < length p)"
    using assms by (simp add: word_less_nat_alt)
  then show ?thesis
    using assms by (simp add: n2k_send_fast_def Let_def min_def)
qed

lemma ucast_len:
  assumes "unat (len :: u16) = L" "L < 256"
  shows "unat (ucast len :: u8) = L" "uint (ucast len :: u8) = int L"
proof -
  show "unat (ucast len :: u8) = L"
    using assms by (simp add: unsigned_ucast_eq take_bit_nat_eq_self)
  then show "uint (ucast len :: u8) = int L" by (simp add: uint_nat)
qed

lemma first_memcpy:
  assumes "t \<le> length p" "t \<le> 6"
  shows "take t (memcpy (replicate 120 0) 0 (take t p @ pad) (int t)) = take t p"
    and "length (memcpy (replicate 120 0) 0 (take t p @ pad) (int t)) = 120"
  using memcpy_extend [of 0 "replicate 120 0" p t pad] assms by simp_all

lemma round_trip_ok:
  assumes len: "unat len = length p" and L: "length p \<le> 120"
  shows "reassemble g (n2k_send_fast now pgn p len prio) = [p]"
proof -
  let ?sq = "ucast (drop_bit 5 now AND 0x07) :: u8"
  let ?ident = "n2k_id prio pgn SA"
  let ?t = "min 6 (length p)"
  let ?d = "[push_bit 5 ?sq OR 0, ucast len] @ take ?t p @ replicate (6 - ?t) 0xFF"
  have ld: "length ?d = 8" by (simp add: min_def)
  have src: "id_source ?ident = SA" by (rule id_source_n2k_id)
  have fi: "(?d ! 0) AND 0x1F = 0" using first_header_index [of ?sq] by simp
  have sq: "drop_bit 5 (?d ! 0) AND 0x07 = ?sq" using header_seq0 [OF refl, of now] by simp
  have ul: "unat (?d ! 1) = length p" "uint (?d ! 1) = int (length p)"
    using ucast_len [OF len] L by simp_all
  have dr: "drop 2 ?d = take ?t p @ replicate (6 - ?t) 0xFF" by simp
  have st: "feed_126208_grp g SA ?d 8 =
     (if uint (?d ! 1) \<le> 6
      then \<lparr>new_grp = gf_reset,
            delivered = Some (take (unat (?d ! 1)) (memcpy (replicate 120 0) 0 (drop 2 ?d) (uint (?d ! 1)))),
            copied = Some (0, uint (?d ! 1))\<rparr>
      else \<lparr>new_grp = \<lparr>active = True, sa = SA, seq = drop_bit 5 (?d ! 0) AND 0x07, total' = ?d ! 1,
                next' = 1, filled = 6, buf = memcpy (replicate 120 0) 0 (drop 2 ?d) 6\<rparr>,
            delivered = None, copied = Some (0, 6)\<rparr>)"
    using fi ul(1) L by (intro feed_first) simp_all
  show ?thesis
  proof (cases "length p \<le> 6")
    case True
    then have t: "?t = length p" by simp
    have dl: "delivered (feed_126208_grp g SA ?d 8) = Some p"
      unfolding st ul dr using True first_memcpy(1) [of "length p" p "replicate (6 - ?t) 0xFF"]
      by (simp add: t)
    have rest: "n2k_send_fast_loop ?ident ?sq p (length p) ?t 1 = []"
      by (rule loop_done) (simp add: t)
    show ?thesis
      unfolding send_fast_unfold [OF len] reassemble_step [OF ld src] rest dl by simp
  next
    case False
    then have t: "?t = 6" by simp
    let ?g = "\<lparr>active = True, sa = SA, seq = ?sq, total' = ?d ! 1,
                next' = 1, filled = 6, buf = memcpy (replicate 120 0) 0 (take 6 p @ replicate (6 - ?t) 0xFF) 6\<rparr>"
    have r: "feed_126208_grp g SA ?d 8 = \<lparr>new_grp = ?g, delivered = None, copied = Some (0, 6)\<rparr>"
      unfolding st ul dr sq using False by (simp add: t)
    have mc: "take 6 (buf ?g) = take 6 p" "length (buf ?g) = 120"
      using first_memcpy [of 6 p "replicate (6 - ?t) 0xFF"] False by simp_all
    have lp: "reassemble ?g (n2k_send_fast_loop ?ident ?sq p (length p) 6 1) = [p]"
    proof (rule reassemble_loop [where now = now and src = SA])
      show "?sq = ucast (drop_bit 5 now AND 7)" by simp
      show "id_source ?ident = SA" by (rule src)
      show "length p = length p" by simp
      show "length p \<le> 120" by (rule L)
      show "6 < length p" using False by simp
      show "active ?g" "sa ?g = SA" "seq ?g = ?sq" "next' ?g = 1" by simp_all
      show "uint (total' ?g) = int (length p)" using ul(2) by simp
      show "uint (filled ?g) = int 6" by simp
      show "7 * unat (1 :: u8) = 6 + 1" by simp
      show "take 6 (buf ?g) = take 6 p" "length (buf ?g) = 120" by (rule mc)+
    qed
    have "reassemble g (n2k_send_fast now pgn p len prio) =
        (case delivered (feed_126208_grp g SA ?d 8) of None \<Rightarrow> [] | Some p \<Rightarrow> [p]) @
        reassemble (new_grp (feed_126208_grp g SA ?d 8))
          (n2k_send_fast_loop ?ident ?sq p (length p) ?t 1)"
      unfolding send_fast_unfold [OF len] reassemble_step [OF ld src] by (rule refl)
    also have "\<dots> = reassemble ?g (n2k_send_fast_loop ?ident ?sq p (length p) 6 1)"
      unfolding r by (simp add: t)
    finally show ?thesis using lp by simp
  qed
qed

lemma round_trip_over:
  assumes len: "unat len = length p" and L: "120 < length p" "length p \<le> 223"
  shows "reassemble g (n2k_send_fast now pgn p len prio) = []"
proof -
  let ?sq = "ucast (drop_bit 5 now AND 0x07) :: u8"
  let ?ident = "n2k_id prio pgn SA"
  let ?t = "min 6 (length p)"
  let ?d = "[push_bit 5 ?sq OR 0, ucast len] @ take ?t p @ replicate (6 - ?t) 0xFF"
  have ld: "length ?d = 8" by (simp add: min_def)
  have src: "id_source ?ident = SA" by (rule id_source_n2k_id)
  have fi: "(?d ! 0) AND 0x1F = 0" using first_header_index [of ?sq] by simp
  have ul: "unat (?d ! 1) = length p"
    using ucast_len(1) [OF len] L by simp
  have st: "feed_126208_grp g SA ?d 8 = \<lparr>new_grp = gf_reset, delivered = None, copied = None\<rparr>"
    using fi ul L by (intro feed_first_over) simp_all
  have t: "?t = 6" using L by simp
  have lp: "reassemble gf_reset (n2k_send_fast_loop ?ident ?sq p (length p) ?t 1) = []"
    unfolding t
    using src L gf_reset_inactive
    by (intro reassemble_loop_inactive [where src = SA]) simp_all
  show ?thesis
    unfolding send_fast_unfold [OF len] reassemble_step [OF ld src] st using lp by simp
qed

lemma round_trip_skip:
  assumes len: "unat len = length p" and L: "length p \<le> 120"
    and k: "0 < k" "k < length (n2k_send_fast now pgn p len prio)"
  shows "reassemble g (skip_index k (n2k_send_fast now pgn p len prio)) = []"
proof -
  let ?sq = "ucast (drop_bit 5 now AND 0x07) :: u8"
  let ?ident = "n2k_id prio pgn SA"
  let ?t = "min 6 (length p)"
  let ?d = "[push_bit 5 ?sq OR 0, ucast len] @ take ?t p @ replicate (6 - ?t) 0xFF"
  let ?rest = "n2k_send_fast_loop ?ident ?sq p (length p) ?t 1"
  obtain j where j: "k = Suc j" using k(1) by (cases k) simp_all
  have jr: "j < length ?rest" using k(2) unfolding send_fast_unfold [OF len] j by simp
  have six: "6 < length p"
  proof (rule ccontr)
    assume "\<not> 6 < length p"
    then have "?rest = []" by (intro loop_done) simp
    then show False using jr by simp
  qed
  then have t: "?t = 6" by simp
  have ld: "length ?d = 8" by (simp add: min_def)
  have src: "id_source ?ident = SA" by (rule id_source_n2k_id)
  have fi: "(?d ! 0) AND 0x1F = 0" using first_header_index [of ?sq] by simp
  have sq: "drop_bit 5 (?d ! 0) AND 0x07 = ?sq" using header_seq0 [OF refl, of now] by simp
  have ul: "unat (?d ! 1) = length p" "uint (?d ! 1) = int (length p)"
    using ucast_len [OF len] L by simp_all
  have dr: "drop 2 ?d = take ?t p @ replicate (6 - ?t) 0xFF" by simp
  have st: "feed_126208_grp g SA ?d 8 =
     (if uint (?d ! 1) \<le> 6
      then \<lparr>new_grp = gf_reset,
            delivered = Some (take (unat (?d ! 1)) (memcpy (replicate 120 0) 0 (drop 2 ?d) (uint (?d ! 1)))),
            copied = Some (0, uint (?d ! 1))\<rparr>
      else \<lparr>new_grp = \<lparr>active = True, sa = SA, seq = drop_bit 5 (?d ! 0) AND 0x07, total' = ?d ! 1,
                next' = 1, filled = 6, buf = memcpy (replicate 120 0) 0 (drop 2 ?d) 6\<rparr>,
            delivered = None, copied = Some (0, 6)\<rparr>)"
    using fi ul(1) L by (intro feed_first) simp_all
  let ?g = "\<lparr>active = True, sa = SA, seq = ?sq, total' = ?d ! 1,
              next' = 1, filled = 6, buf = memcpy (replicate 120 0) 0 (take 6 p @ replicate (6 - ?t) 0xFF) 6\<rparr>"
  have r: "feed_126208_grp g SA ?d 8 = \<lparr>new_grp = ?g, delivered = None, copied = Some (0, 6)\<rparr>"
    unfolding st ul dr sq using six by (simp add: t)
  have mc: "take 6 (buf ?g) = take 6 p" "length (buf ?g) = 120"
    using first_memcpy [of 6 p "replicate (6 - ?t) 0xFF"] six by simp_all
  have lp: "reassemble ?g (skip_index j (n2k_send_fast_loop ?ident ?sq p (length p) 6 1)) = []"
  proof (rule reassemble_loop_skip [where now = now and src = SA])
    show "?sq = ucast (drop_bit 5 now AND 7)" by simp
    show "id_source ?ident = SA" by (rule src)
    show "length p = length p" by simp
    show "length p \<le> 120" by (rule L)
    show "6 < length p" by (rule six)
    show "active ?g" "sa ?g = SA" "seq ?g = ?sq" "next' ?g = 1" by simp_all
    show "uint (total' ?g) = int (length p)" using ul(2) by simp
    show "uint (filled ?g) = int 6" by simp
    show "7 * unat (1 :: u8) = 6 + 1" by simp
    show "take 6 (buf ?g) = take 6 p" "length (buf ?g) = 120" by (rule mc)+
    show "j < length (n2k_send_fast_loop ?ident ?sq p (length p) 6 1)" using jr t by simp
  qed
  have "reassemble g (skip_index k (n2k_send_fast now pgn p len prio)) =
      (case delivered (feed_126208_grp g SA ?d 8) of None \<Rightarrow> [] | Some p \<Rightarrow> [p]) @
      reassemble (new_grp (feed_126208_grp g SA ?d 8)) (skip_index j ?rest)"
    unfolding send_fast_unfold [OF len] j skip_index_simps reassemble_step [OF ld src] by (rule refl)
  also have "\<dots> = reassemble ?g (skip_index j (n2k_send_fast_loop ?ident ?sq p (length p) 6 1))"
    unfolding r by (simp add: t)
  finally show ?thesis using lp by simp
qed

section \<open>Rounding to binary32\<close>

lemma bitlen_bounds: "0 < n \<Longrightarrow> 2 ^ (bitlen n - 1) \<le> n \<and> n < 2 ^ bitlen n"
proof (induction n rule: bitlen.induct)
  case (1 n)
  show ?case
  proof (cases "n div 2 \<le> 0")
    case True
    with 1 have "n = 1" by linarith
    then show ?thesis by (simp add: bitlen.simps)
  next
    case False
    then have h: "0 < n div 2" by simp
    have b: "bitlen n = Suc (bitlen (n div 2))" using 1(2) by (subst bitlen.simps) simp
    have pos: "0 < bitlen (n div 2)" using h by (subst bitlen.simps) simp
    from 1(1) [OF _ h] 1(2)
    have ih: "2 ^ (bitlen (n div 2) - 1) \<le> n div 2" "n div 2 < 2 ^ bitlen (n div 2)" by simp_all
    have "2 ^ (bitlen n - 1) = 2 * 2 ^ (bitlen (n div 2) - 1)"
      using pos unfolding b by (cases "bitlen (n div 2)") simp_all
    also have "\<dots> \<le> 2 * (n div 2)" using ih(1) by simp
    also have "\<dots> \<le> n" by simp
    finally have lo: "2 ^ (bitlen n - 1) \<le> n" .
    have "n < 2 * (n div 2) + 2" by linarith
    also have "\<dots> \<le> 2 * 2 ^ bitlen (n div 2)" using ih(2) by simp
    finally have hi: "n < 2 ^ bitlen n" unfolding b by simp
    show ?thesis using lo hi by simp
  qed
qed

lemma rne_error: "\<bar>of_int (rne y) - y\<bar> \<le> 1 / 2"
proof -
  have "of_int \<lfloor>y\<rfloor> \<le> y" "y < of_int \<lfloor>y\<rfloor> + 1" by linarith+
  then show ?thesis
    unfolding rne_def Let_def by (auto simp add: abs_le_iff)
qed

lemma rne_nonneg: "0 \<le> y \<Longrightarrow> 0 \<le> rne y"
  unfolding rne_def Let_def by (auto simp add: zero_le_floor intro: add_nonneg_nonneg)

lemma f32_ulp_pos: "0 < f32_ulp x"
  by (simp add: f32_ulp_def)

lemma f32_ulp_le: "f32_ulp x \<le> \<bar>x\<bar> / 2 ^ 23 + 1 / 2 ^ 149"
proof -
  let ?m = "\<lfloor>\<bar>x\<bar> * 2 ^ 149\<rfloor>"
  show ?thesis
  proof (cases "24 \<le> bitlen ?m")
    case False
    then have "bitlen ?m - 24 = 0" by simp
    then have "f32_ulp x = 1 / 2 ^ 149" by (simp add: f32_ulp_def)
    then show ?thesis by simp
  next
    case True
    then have mpos: "0 < ?m" by (subst (asm) bitlen.simps) (simp split: if_splits)
    have "(2::int) ^ (bitlen ?m - 1) \<le> ?m" using bitlen_bounds [OF mpos] by simp
    then have "(of_int ((2::int) ^ (bitlen ?m - 1)) :: rat) \<le> of_int ?m" by (simp only: of_int_le_iff)
    also have "\<dots> \<le> \<bar>x\<bar> * 2 ^ 149" by simp
    finally have a: "(2::rat) ^ (bitlen ?m - 1) \<le> \<bar>x\<bar> * 2 ^ 149" by simp
    have "bitlen ?m - 1 = (bitlen ?m - 24) + 23" using True by simp
    then have "(2::rat) ^ (bitlen ?m - 1) = 2 ^ (bitlen ?m - 24) * 2 ^ 23"
      by (simp only: power_add)
    then have "(2::rat) ^ (bitlen ?m - 24) * 2 ^ 23 \<le> \<bar>x\<bar> * 2 ^ 149" using a by simp
    then have "(2::rat) ^ (bitlen ?m - 24) / 2 ^ 149 \<le> \<bar>x\<bar> / 2 ^ 23"
      by (simp add: field_simps)
    then have "f32_ulp x \<le> \<bar>x\<bar> / 2 ^ 23" by (simp add: f32_ulp_def)
    then show ?thesis by simp
  qed
qed

lemma f32_round_error: "\<bar>f32_round x - x\<bar> \<le> f32_ulp x / 2"
proof -
  let ?u = "f32_ulp x"
  have u: "0 < ?u" by (rule f32_ulp_pos)
  have "f32_round x - x = (of_int (rne (x / ?u)) - x / ?u) * ?u"
    using u by (simp add: f32_round_def field_simps)
  then have "\<bar>f32_round x - x\<bar> = \<bar>of_int (rne (x / ?u)) - x / ?u\<bar> * ?u"
    using u by (simp add: abs_mult)
  also have "\<dots> \<le> (1 / 2) * ?u"
    using rne_error [of "x / ?u"] u by (intro mult_right_mono) simp_all
  finally show ?thesis by simp
qed

lemma f32_round_nonneg: "0 \<le> x \<Longrightarrow> 0 \<le> f32_round x"
  unfolding f32_round_def
  using f32_ulp_pos [of x] rne_nonneg [of "x / f32_ulp x"]
  by (intro mult_nonneg_nonneg) simp_all

lemma f32_round_upper:
  assumes "0 \<le> x"
  shows "f32_round x \<le> x + x / 2 ^ 24 + 1 / 2 ^ 150"
proof -
  have "f32_round x - x \<le> f32_ulp x / 2" using f32_round_error [of x] by linarith
  moreover have "f32_ulp x / 2 \<le> (x / 2 ^ 23 + 1 / 2 ^ 149) / 2"
    using f32_ulp_le [of x] assms by simp
  ultimately show ?thesis by (simp add: field_simps)
qed

lemma f32_round_lower:
  assumes "0 \<le> x"
  shows "x - x / 2 ^ 24 - 1 / 2 ^ 150 \<le> f32_round x"
proof -
  have "x - f32_round x \<le> f32_ulp x / 2" using f32_round_error [of x] by linarith
  moreover have "f32_ulp x / 2 \<le> (x / 2 ^ 23 + 1 / 2 ^ 149) / 2"
    using f32_ulp_le [of x] assms by simp
  ultimately show ?thesis by (simp add: field_simps)
qed

text \<open>A non-negative value below a bound \<open>b\<close> rounds to a finite value below \<open>b + b / 2 ^ 23\<close>.\<close>

lemma f32_bounded:
  assumes "0 \<le> x" "x \<le> b" "b \<le> 2 ^ 100" "1 \<le> b"
  shows "\<exists>r. f32 x = Fin r \<and> 0 \<le> r \<and> r \<le> b + b / 2 ^ 23"
proof -
  have up: "f32_round x \<le> x + x / 2 ^ 24 + 1 / 2 ^ 150" by (rule f32_round_upper [OF assms(1)])
  have "x / 2 ^ 24 \<le> b / 2 ^ 24" using assms by (simp add: divide_right_mono)
  moreover have "(1 :: rat) / 2 ^ 150 \<le> b / 2 ^ 24"
  proof -
    have "(1 :: rat) / 2 ^ 150 \<le> 1 / 2 ^ 24" by simp
    also have "\<dots> \<le> b / 2 ^ 24" using assms(4) by (simp add: divide_right_mono)
    finally show ?thesis .
  qed
  ultimately have r: "f32_round x \<le> b + b / 2 ^ 23" using up assms(2) by (simp add: field_simps)
  have "b + b / 2 ^ 23 \<le> 2 ^ 100 + 2 ^ 100 / 2 ^ 23"
    using assms(3) by (intro add_mono divide_right_mono) simp_all
  also have "\<dots> \<le> FLT_MAX" by (simp add: FLT_MAX_def)
  finally have m: "f32_round x \<le> FLT_MAX" using r by simp
  have n: "0 \<le> f32_round x" by (rule f32_round_nonneg [OF assms(1)])
  have "- FLT_MAX \<le> 0" by (simp add: FLT_MAX_def)
  then have "f32 x = Fin (f32_round x)" using m n by (simp add: f32_def Let_def)
  then show ?thesis using r n by simp
qed

lemma fmul_bounded:
  assumes "0 \<le> a" "a \<le> A" "0 \<le> b" "b \<le> B" "1 \<le> A * B" "A * B \<le> 2 ^ 100"
  shows "\<exists>r. fmul (Fin a) (Fin b) = Fin r \<and> 0 \<le> r \<and> r \<le> A * B + A * B / 2 ^ 23"
proof -
  have "a * b \<le> A * B" using assms by (intro mult_mono) simp_all
  moreover have "0 \<le> a * b" using assms by simp
  ultimately show ?thesis using f32_bounded [of "a * b" "A * B"] assms(5,6) by simp
qed

lemma fdiv_bounded:
  assumes "0 \<le> a" "a \<le> A" "0 < B" "B \<le> b" "1 \<le> A / B" "A / B \<le> 2 ^ 100"
  shows "\<exists>r. fdiv (Fin a) (Fin b) = Fin r \<and> 0 \<le> r \<and> r \<le> A / B + A / B / 2 ^ 23"
proof -
  have b: "0 < b" using assms by simp
  have "a / b \<le> A / B" using assms by (intro frac_le) simp_all
  moreover have "0 \<le> a / b" using assms b by simp
  ultimately show ?thesis using f32_bounded [of "a / b" "A / B"] assms(5,6) b by simp
qed

lemma float_of_int_bounded:
  assumes "0 \<le> i" "i \<le> 65535"
  shows "\<exists>r. float_of_int i = Fin r \<and> 0 \<le> r \<and> r \<le> 65536"
proof -
  have "(of_int i :: rat) \<le> 65535" "(0 :: rat) \<le> of_int i" using assms by simp_all
  then obtain r where "f32 (of_int i) = Fin r" "0 \<le> r" "r \<le> 65535 + 65535 / 2 ^ 23"
    using f32_bounded [of "of_int i" 65535] by auto
  then show ?thesis by (auto simp add: float_of_int_def)
qed

lemma float_of_u16_bounded:
  "\<exists>r. float_of_int (uint (q :: u16)) = Fin r \<and> 0 \<le> r \<and> r \<le> 65536"
proof -
  have "uint q < 2 ^ 16" using uint_bounded [of q] by simp
  then show ?thesis by (intro float_of_int_bounded) simp_all
qed

lemma flit_1e4_bounded: "\<exists>c. flit (1 / 10000) = Fin c \<and> 0 \<le> c \<and> c \<le> 1 / 9999"
proof -
  have "f32_round (1 / 10000) \<le> 1 / 10000 + (1 / 10000) / 2 ^ 24 + 1 / 2 ^ 150"
    by (rule f32_round_upper) simp
  also have "\<dots> \<le> 1 / 9999" by simp
  finally have "f32_round (1 / 10000) \<le> 1 / 9999" .
  moreover have "0 \<le> f32_round (1 / 10000)" by (rule f32_round_nonneg) simp
  ultimately show ?thesis by (simp add: flit_def)
qed

text \<open>A heading decoded from 16 bits is finite, non-negative and below 400 degrees.\<close>

lemma rad1e4_to_deg_bounded:
  "\<exists>h. rad1e4_to_deg q = Fin h \<and> 0 \<le> h \<and> h \<le> 400"
proof -
  obtain r0 where r0: "float_of_int (uint q) = Fin r0" "0 \<le> r0" "r0 \<le> 65536"
    using float_of_u16_bounded by blast
  obtain c where c: "flit (1 / 10000) = Fin c" "0 \<le> c" "c \<le> 1 / 9999"
    using flit_1e4_bounded by blast
  obtain r1 where r1: "fmul (Fin r0) (Fin c) = Fin r1" "0 \<le> r1"
      "r1 \<le> 65536 * (1 / 9999) + 65536 * (1 / 9999) / 2 ^ 23"
    using fmul_bounded [OF r0(2,3) c(2,3)] by auto
  have r1': "r1 \<le> 66 / 10" using r1(3) by simp
  obtain r2 where r2: "fmul (Fin r1) (Fin 180) = Fin r2" "0 \<le> r2"
      "r2 \<le> 66 / 10 * 180 + 66 / 10 * 180 / 2 ^ 23"
    using fmul_bounded [OF r1(2) r1', of 180 180] by auto
  have r2': "r2 \<le> 1189" using r2(3) by simp
  obtain r3 where r3: "fdiv (Fin r2) (Fin (13176795 / 4194304)) = Fin r3" "0 \<le> r3"
      "r3 \<le> 1189 / 3 + 1189 / 3 / 2 ^ 23"
    using fdiv_bounded [OF r2(2) r2', of 3 "13176795 / 4194304"] by auto
  have "r3 \<le> 400" using r3(3) by simp
  then show ?thesis
    using r0 c r1 r2 r3 by (simp add: rad1e4_to_deg_def M_PI_f_def)
qed

lemma while_neg_nonneg: "0 \<le> h \<Longrightarrow> while_neg_add360 (Fin h) = Some (Fin h)"
  by (subst while_neg_add360.simps) simp

lemma while_ge360_small: "h < 360 \<Longrightarrow> while_ge360_sub360 (Fin h) = Some (Fin h)"
  by (subst while_ge360_sub360.simps) simp

lemma norm360_bounded:
  assumes "0 \<le> h" "h \<le> 400"
  shows "\<exists>h'. norm360 (Fin h) = Some (Fin h') \<and> 0 \<le> h' \<and> h' < 360"
proof (cases "h < 360")
  case True
  then show ?thesis using assms by (simp add: norm360_def while_neg_nonneg while_ge360_small)
next
  case False
  then have "0 \<le> h - 360" "h - 360 \<le> 40" using assms by simp_all
  then obtain r where r: "f32 (h - 360) = Fin r" "0 \<le> r" "r \<le> 40 + 40 / 2 ^ 23"
    using f32_bounded [of "h - 360" 40] by auto
  have "r < 360" using r(3) by simp
  have s: "fsub (Fin h) (Fin 360) = Fin r" using r(1) by (simp add: fsub_def)
  have "while_ge360_sub360 (Fin h) = while_ge360_sub360 (Fin r)"
    using False by (subst while_ge360_sub360.simps) (simp add: s)
  also have "\<dots> = Some (Fin r)" using \<open>r < 360\<close> by (rule while_ge360_small)
  finally show ?thesis using assms r(2) \<open>r < 360\<close> by (simp add: norm360_def while_neg_nonneg)
qed

lemma trunc_of_int: "trunc (of_int k) = k"
  by (simp add: trunc_def)

lemma round_away_bounds: "0 \<le> a \<Longrightarrow> a \<le> of_int N \<Longrightarrow> 0 \<le> round_away a \<and> round_away a \<le> N"
proof -
  assume a: "0 \<le> a" "a \<le> of_int N"
  have "\<lfloor>a + 1 / 2\<rfloor> \<le> \<lfloor>(of_int N :: rat) + 1 / 2\<rfloor>" using a by (intro floor_mono) simp
  also have "\<dots> = N" by linarith
  finally have "\<lfloor>a + 1 / 2\<rfloor> \<le> N" .
  moreover have "0 \<le> \<lfloor>a + 1 / 2\<rfloor>" using a by (simp add: zero_le_floor)
  ultimately show ?thesis using a by (simp add: round_away_def)
qed

lemma deg_to_rad1e4_u16_defined:
  assumes "0 \<le> h" "h \<le> 400"
  shows "\<exists>v. deg_to_rad1e4_u16 (Fin h) = Some v"
proof -
  obtain h' where n: "norm360 (Fin h) = Some (Fin h')" "0 \<le> h'" "h' < 360"
    using norm360_bounded [OF assms] by blast
  obtain r1 where r1: "fmul (Fin h') (Fin (13176795 / 4194304)) = Fin r1" "0 \<le> r1"
      "r1 \<le> 360 * 4 + 360 * 4 / 2 ^ 23"
    using fmul_bounded [of h' 360 "13176795 / 4194304" 4] n(2,3) by auto
  have r1': "r1 \<le> 1441" using r1(3) by simp
  obtain r2 where r2: "fdiv (Fin r1) (Fin 180) = Fin r2" "0 \<le> r2"
      "r2 \<le> 1441 / 180 + 1441 / 180 / 2 ^ 23"
    using fdiv_bounded [OF r1(2) r1', of 180 180] by auto
  have r2': "r2 \<le> 9" using r2(3) by simp
  obtain r3 where r3: "fmul (Fin r2) (Fin 10000) = Fin r3" "0 \<le> r3"
      "r3 \<le> 9 * 10000 + 9 * 10000 / 2 ^ 23"
    using fmul_bounded [OF r2(2) r2', of 10000 10000] by auto
  have r3': "r3 \<le> of_int 90001" using r3(3) by simp
  have k: "0 \<le> round_away r3" "round_away r3 \<le> 90001"
    using round_away_bounds [OF r3(2) r3'] by simp_all
  then have "\<exists>v. float_to_uint 32 (roundf (Fin r3)) = Some v"
    by (simp add: float_to_uint_def trunc_of_int)
  then show ?thesis
    using n(1) r1(1) r2(1) r3(1) by (auto simp add: deg_to_rad1e4_u16_def M_PI_f_def Let_def)
qed

section \<open>The pilot state machine\<close>

lemma st_press_eq:
  "st_press w code = w\<lparr>st_tx := st_tx w @ [keystroke_datagram code, keystroke_datagram code]\<rparr>"
  by (simp add: st_press_def st_send_keystroke_def st_write_datagram_def numeral_2_eq_2
      keystroke_datagram_def ST_SENDER_NIB_def)

lemma apply_selector_auto:
  assumes "currentMode w = PM_STBY"
  shows "apply_selector w 0x40 =
     w\<lparr>currentMode := PM_AUTO, headingRef := REF_MAG, locked_hdg_deg := hdg_deg_now w,
       can_tx := can_tx w @ send_65379_mode PM_AUTO,
       st_tx := st_tx w @ [keystroke_datagram ST_CODE_AUTO, keystroke_datagram ST_CODE_AUTO]\<rparr>"
  using assms
  by (simp add: apply_selector_def selector_mode_def Let_def st_press_eq can_send_def)

lemma selector_loop_auto:
  "selector_loop w [0x04, 0x04, 0x40] 0 False = (True, apply_selector w 0x40)"
  by (simp add: selector_loop.simps)

lemma button_loop_auto:
  "button_loop w [0x04, 0x04, 0x40] 0 did = (did, w)"
  by (simp add: button_loop.simps)

lemma target_65379: "(ucast (0x63 :: u8) OR push_bit 8 (ucast (0xFF :: u8)) OR push_bit 16 (ucast (0x00 :: u8)) :: u32) = 65379"
  by simp

text \<open>
  Claim C5.  In Standby, a write-command to the pilot-mode PGN 65379 that carries the
  Auto selector \<^verbatim>\<open>04 04 40\<close> sets the mode to Auto and the locked heading to the current
  heading, and writes exactly two datagrams to the SeaTalk bus, each the four-byte
  "auto" keystroke \<^verbatim>\<open>86 21 01 FE\<close>, whose fourth byte is the complement of the third.
  (It also sets the heading reference to magnetic and sends the mode status frame.)
\<close>

theorem auto_selector_from_standby:
  assumes "currentMode w = PM_STBY" and "func \<noteq> 0x01"
  shows "handle_126208_full now w [func, 0x63, 0xFF, 0x00, 0x04, 0x04, 0x40] =
           Some (w\<lparr>currentMode := PM_AUTO, headingRef := REF_MAG,
                   locked_hdg_deg := hdg_deg_now w,
                   can_tx := can_tx w @ send_65379_mode PM_AUTO,
                   st_tx := st_tx w @
                     [keystroke_datagram ST_CODE_AUTO, keystroke_datagram ST_CODE_AUTO]\<rparr>) \<and>
         length (keystroke_datagram ST_CODE_AUTO) = 4 \<and>
         map snd (keystroke_datagram ST_CODE_AUTO) = [0x86, 0x21, 0x01, 0xFE] \<and>
         snd (keystroke_datagram ST_CODE_AUTO ! 3) = NOT (snd (keystroke_datagram ST_CODE_AUTO ! 2))"
  using assms
  by (simp add: handle_126208_full_def Let_def PGN_RM_PILOT_MODE_def PGN_RM_LOCKED_HEADING_def
      apply_rm_selector_or_button_def selector_loop_auto button_loop_auto apply_selector_auto
      keystroke_datagram_def ST_CODE_AUTO_def)

theorem auto_selector_from_standby_witness:
  "currentMode initial_world = PM_STBY \<and> (0x00 :: u8) \<noteq> 0x01 \<and>
   map_option currentMode
     (handle_126208_full 0 initial_world [0x00, 0x63, 0xFF, 0x00, 0x04, 0x04, 0x40]) = Some PM_AUTO \<and>
   map_option locked_hdg_deg
     (handle_126208_full 0 initial_world [0x00, 0x63, 0xFF, 0x00, 0x04, 0x04, 0x40]) = Some (Fin 0) \<and>
   map_option (map (map snd) \<circ> st_tx)
     (handle_126208_full 0 initial_world [0x00, 0x63, 0xFF, 0x00, 0x04, 0x04, 0x40]) =
     Some [[0x86, 0x21, 0x01, 0xFE], [0x86, 0x21, 0x01, 0xFE]]"
  using auto_selector_from_standby [of initial_world 0 0]
  by (simp add: initial_world_def keystroke_datagram_def ST_CODE_AUTO_def)

lemma st_press_fields [simp]:
  "currentMode (st_press w c) = currentMode w"
  "headingRef (st_press w c) = headingRef w"
  "hdg_deg_now (st_press w c) = hdg_deg_now w"
  "locked_hdg_deg (st_press w c) = locked_hdg_deg w"
  "grp (st_press w c) = grp w"
  "can_tx (st_press w c) = can_tx w"
  "st_tx (st_press w c) = st_tx w @ [keystroke_datagram c, keystroke_datagram c]"
  by (simp_all add: st_press_eq)

lemma can_send_fields [simp]:
  "currentMode (can_send w ms) = currentMode w"
  "headingRef (can_send w ms) = headingRef w"
  "hdg_deg_now (can_send w ms) = hdg_deg_now w"
  "locked_hdg_deg (can_send w ms) = locked_hdg_deg w"
  "grp (can_send w ms) = grp w"
  "st_tx (can_send w ms) = st_tx w"
  "can_tx (can_send w ms) = can_tx w @ ms"
  by (simp_all add: can_send_def)

text \<open>What one selector and one button do to the mode, the headings and the buffer.\<close>

lemma apply_selector_effect:
  "hdg_deg_now (apply_selector w sel) = hdg_deg_now w \<and>
   grp (apply_selector w sel) = grp w \<and>
   (locked_hdg_deg (apply_selector w sel) = locked_hdg_deg w \<and>
      (currentMode (apply_selector w sel) = currentMode w \<or>
       currentMode (apply_selector w sel) = PM_WIND) \<or>
    locked_hdg_deg (apply_selector w sel) = hdg_deg_now w \<and>
      currentMode (apply_selector w sel) \<noteq> PM_STBY \<or>
    locked_hdg_deg (apply_selector w sel) = NaN)"
  by (cases "selector_mode sel (currentMode w)")
    (simp_all add: apply_selector_def Let_def)

lemma apply_button_effect:
  "hdg_deg_now (snd (apply_button w code did)) = hdg_deg_now w \<and>
   grp (snd (apply_button w code did)) = grp w \<and>
   (locked_hdg_deg (snd (apply_button w code did)) = locked_hdg_deg w \<and>
      (currentMode (snd (apply_button w code did)) = currentMode w \<or>
       currentMode (snd (apply_button w code did)) = PM_WIND) \<or>
    locked_hdg_deg (snd (apply_button w code did)) = hdg_deg_now w \<and>
      currentMode (snd (apply_button w code did)) \<noteq> PM_STBY \<or>
    locked_hdg_deg (snd (apply_button w code did)) = NaN)"
  by (simp add: apply_button_def Let_def)

lemma apply_selector_ok:
  "world_ok w \<Longrightarrow> world_ok (apply_selector w sel)"
  "standby_inv w \<Longrightarrow> standby_inv (apply_selector w sel)"
  using apply_selector_effect [of w sel]
  by (auto simp add: world_ok_def standby_inv_def isnan_def)

lemma apply_button_ok:
  "world_ok w \<Longrightarrow> world_ok (snd (apply_button w code did))"
  "standby_inv w \<Longrightarrow> standby_inv (snd (apply_button w code did))"
  using apply_button_effect [of w code did]
  by (auto simp add: world_ok_def standby_inv_def isnan_def)

lemma selector_loop_ok:
  "world_ok w \<Longrightarrow> world_ok (snd (selector_loop w b i did))"
  "standby_inv w \<Longrightarrow> standby_inv (snd (selector_loop w b i did))"
  "grp (snd (selector_loop w b i did)) = grp w"
proof (induction w b i did rule: selector_loop.induct)
  case (1 w b i did)
  {
    case 1
    then show ?case
      using "1.IH"(1,4) apply_selector_ok(1) [of w]
      by (subst selector_loop.simps) auto
  next
    case 2
    then show ?case
      using "1.IH"(2,5) apply_selector_ok(2) [of w]
      by (subst selector_loop.simps) auto
  next
    case 3
    show ?case
      using "1.IH"(3,6) apply_selector_effect [of w]
      by (subst selector_loop.simps) auto
  }
qed

lemma button_loop_ok:
  "world_ok w \<Longrightarrow> world_ok (snd (button_loop w b i did))"
  "standby_inv w \<Longrightarrow> standby_inv (snd (button_loop w b i did))"
  "grp (snd (button_loop w b i did)) = grp w"
proof (induction w b i did rule: button_loop.induct)
  case (1 w b i did)
  {
    case 1
    then show ?case
      using "1.IH"(1,4) apply_button_ok(1) [of w "b ! (i + 1)" did]
      by (subst button_loop.simps) (auto split: prod.splits)
  next
    case 2
    then show ?case
      using "1.IH"(2,5) apply_button_ok(2) [of w "b ! (i + 1)" did]
      by (subst button_loop.simps) (auto split: prod.splits)
  next
    case 3
    show ?case
      using "1.IH"(3,6) apply_button_effect [of w "b ! (i + 1)" did]
      by (subst button_loop.simps) (auto split: prod.splits)
  }
qed

lemma apply_rm_ok:
  "world_ok w \<Longrightarrow> world_ok (snd (apply_rm_selector_or_button w b))"
  "standby_inv w \<Longrightarrow> standby_inv (snd (apply_rm_selector_or_button w b))"
  "grp (snd (apply_rm_selector_or_button w b)) = grp w"
  using selector_loop_ok [of w b 0 False]
    button_loop_ok [of "snd (selector_loop w b 0 False)" b 0 "fst (selector_loop w b 0 False)"]
  by (simp_all add: apply_rm_selector_or_button_def case_prod_beta)


lemma extract_loop_ok:
  "extractMagHeading_loop b i = Some x \<Longrightarrow> heading_ok x"
proof (induction b i rule: extractMagHeading_loop.induct)
  case (1 b i)
  show ?case
  proof (cases "i + 3 \<le> length b \<and> b ! i = 0x06")
    case True
    let ?raw = "(ucast (b ! (i + 1)) OR push_bit 8 (ucast (b ! (i + 2))) :: u16)"
    have "x = rad1e4_to_deg ?raw"
      using "1.prems" True
      by (subst (asm) extractMagHeading_loop.simps) (simp add: rad1e4_to_deg_def Let_def)
    then show ?thesis
      using rad1e4_to_deg_bounded [of ?raw] by (auto simp add: heading_ok_def)
  next
    case False
    then have e: "extractMagHeading_loop b i =
        (if i + 3 \<le> length b then extractMagHeading_loop b (i + 1) else None)"
      by (subst extractMagHeading_loop.simps) auto
    then have "i + 3 \<le> length b" "b ! i \<noteq> 0x06" "extractMagHeading_loop b (i + 1) = Some x"
      using "1.prems" False by (auto split: if_splits)
    then show ?thesis by (rule "1.IH")
  qed
qed

lemma heading_ok_Fin: "heading_ok x \<Longrightarrow> \<exists>h. x = Fin h \<and> 0 \<le> h \<and> h \<le> 400"
  by (cases x) (simp_all add: heading_ok_def)

lemma norm360_ok:
  assumes "heading_ok x"
  shows "\<exists>h. norm360 x = Some (Fin h) \<and> 0 \<le> h \<and> h < 360"
  using heading_ok_Fin [OF assms] norm360_bounded by blast

lemma send_65360_defined:
  assumes "heading_ok x"
  shows "\<exists>ms. send_65360_locked_heading x = Some ms"
proof -
  obtain h where h: "x = Fin h" "0 \<le> h" "h \<le> 400" using heading_ok_Fin [OF assms] by blast
  obtain v where "deg_to_rad1e4_u16 (Fin h) = Some v"
    using deg_to_rad1e4_u16_defined [OF h(2,3)] by blast
  then show ?thesis using h(1) by (simp add: send_65360_locked_heading_def isnan_def)
qed

text \<open>
  A request returns, and changes nothing but the list of transmitted frames.
\<close>

lemma handle_request_ok:
  assumes "world_ok w"
  shows "\<exists>ms. handle_126208_request now w target = Some (can_send w ms)"
proof -
  have "\<exists>ms. send_65360_locked_heading (locked_hdg_deg w) = Some ms" if "\<not> isnan (locked_hdg_deg w)"
    using that assms by (intro send_65360_defined) (simp add: world_ok_def)
  moreover have "w = can_send w []" by (simp add: can_send_def)
  ultimately show ?thesis
    unfolding handle_126208_request_def by (auto simp add: map_option_case split: option.splits)
qed


lemma world_ok_upd [simp]:
  "world_ok (can_send w ms) = world_ok w"
  "world_ok (w\<lparr>grp := g\<rparr>) = world_ok w"
  "standby_inv (can_send w ms) = standby_inv w"
  "standby_inv (w\<lparr>grp := g\<rparr>) = standby_inv w"
  by (simp_all add: world_ok_def standby_inv_def)

lemma handle_full_unfold:
  "4 \<le> length b \<Longrightarrow> handle_126208_full now w b =
    (if b ! 0 = 0x01 then handle_126208_request now w (cmd_target b)
     else if cmd_target b = PGN_RM_PILOT_MODE \<or> cmd_target b = PGN_RM_LOCKED_HEADING then
       (if cmd_target b = PGN_RM_LOCKED_HEADING then
          (case gf65360_extractMagHeading (drop 4 b) of
             None \<Rightarrow> Some (snd (apply_rm_selector_or_button w (drop 4 b)))
           | Some newH \<Rightarrow>
               map_option
                 (\<lambda>h. (snd (apply_rm_selector_or_button w (drop 4 b)))\<lparr>locked_hdg_deg := h\<rparr>)
                 (norm360 newH))
        else Some (snd (apply_rm_selector_or_button w (drop 4 b))))
     else Some w)"
  unfolding handle_126208_full_def cmd_target_def Let_def case_prod_beta by simp

text \<open>
  A write-command that holds a heading field: the handler returns, the locked heading
  is the normalised value of the field, and everything else is as the selector and
  button loops leave it.
\<close>

lemma handle_full_heading_write:
  assumes "4 \<le> length b" "b ! 0 \<noteq> 0x01" "cmd_target b = PGN_RM_LOCKED_HEADING"
    and "gf65360_extractMagHeading (drop 4 b) = Some newH"
  shows "\<exists>h. norm360 newH = Some (Fin h) \<and> 0 \<le> h \<and> h < 360 \<and>
     handle_126208_full now w b =
       Some ((snd (apply_rm_selector_or_button w (drop 4 b)))\<lparr>locked_hdg_deg := Fin h\<rparr>)"
proof -
  have "heading_ok newH"
    using assms(4) extract_loop_ok by (simp add: gf65360_extractMagHeading_def)
  then obtain h where h: "norm360 newH = Some (Fin h)" "0 \<le> h" "h < 360"
    using norm360_ok by blast
  have "handle_126208_full now w b =
       Some ((snd (apply_rm_selector_or_button w (drop 4 b)))\<lparr>locked_hdg_deg := Fin h\<rparr>)"
    using assms(2-4) h(1) unfolding handle_full_unfold [OF assms(1)] by simp
  then show ?thesis using h by blast
qed

lemma handle_full_no_write:
  assumes "\<not> is_heading_write b" "world_ok w"
  shows "\<exists>ms. handle_126208_full now w b = Some (can_send w ms) \<or>
          handle_126208_full now w b = Some (snd (apply_rm_selector_or_button w (drop 4 b)))"
proof (cases "length b < 4")
  case True
  have "w = can_send w []" by (simp add: can_send_def)
  then show ?thesis using True by (auto simp add: handle_126208_full_def)
next
  case False
  then have l: "4 \<le> length b" by simp
  show ?thesis
  proof (cases "b ! 0 = 0x01")
    case True
    then show ?thesis
      using handle_request_ok [OF assms(2), of now "cmd_target b"]
      unfolding handle_full_unfold [OF l] by auto
  next
    case f: False
    have "w = can_send w []" by (simp add: can_send_def)
    then show ?thesis
      using assms(1) f l unfolding handle_full_unfold [OF l]
      by (auto simp add: is_heading_write_def split: option.splits)
  qed
qed

lemma handle_full_ok:
  assumes "world_ok w"
  shows "\<exists>w'. handle_126208_full now w b = Some w' \<and> world_ok w' \<and> grp w' = grp w \<and>
           (standby_inv w \<and> \<not> is_heading_write b \<longrightarrow> standby_inv w')"
proof (cases "is_heading_write b")
  case True
  then obtain newH where n: "gf65360_extractMagHeading (drop 4 b) = Some newH"
    by (auto simp add: is_heading_write_def)
  obtain h where h: "0 \<le> h" "h < 360" "handle_126208_full now w b =
       Some ((snd (apply_rm_selector_or_button w (drop 4 b)))\<lparr>locked_hdg_deg := Fin h\<rparr>)"
    using handle_full_heading_write [OF _ _ _ n, of now w] True
    by (auto simp add: is_heading_write_def)
  have "world_ok (snd (apply_rm_selector_or_button w (drop 4 b)))"
    using apply_rm_ok(1) [OF assms] .
  then have "world_ok ((snd (apply_rm_selector_or_button w (drop 4 b)))\<lparr>locked_hdg_deg := Fin h\<rparr>)"
    using h(1,2) by (simp add: world_ok_def heading_ok_def)
  then show ?thesis using h(3) True apply_rm_ok(3) [of w "drop 4 b"] by simp
next
  case False
  from handle_full_no_write [OF False assms, of now]
  show ?thesis
    using False assms apply_rm_ok [of w "drop 4 b"] by auto
qed

lemma world_ok_telemetry [simp]:
  "world_ok (w\<lparr>aws_kn := a, awa_deg := b\<rparr>) = world_ok w"
  "world_ok (w\<lparr>stw_kn := a\<rparr>) = world_ok w"
  "world_ok (w\<lparr>cog_mag_deg := a, sog_kn := b\<rparr>) = world_ok w"
  "world_ok (w\<lparr>xte_nm := a\<rparr>) = world_ok w"
  "standby_inv (w\<lparr>aws_kn := a, awa_deg := b\<rparr>) = standby_inv w"
  "standby_inv (w\<lparr>stw_kn := a\<rparr>) = standby_inv w"
  "standby_inv (w\<lparr>cog_mag_deg := a, sog_kn := b\<rparr>) = standby_inv w"
  "standby_inv (w\<lparr>xte_nm := a\<rparr>) = standby_inv w"
  "standby_inv (w\<lparr>hdg_deg_now := a\<rparr>) = standby_inv w"
  by (simp_all add: world_ok_def standby_inv_def)

lemma world_ok_can_send [simp]:
  "world_ok (can_send w ms) = world_ok w"
  "standby_inv (can_send w ms) = standby_inv w"
  by (simp_all add: world_ok_def standby_inv_def)

lemma world_ok_heading:
  "world_ok w \<Longrightarrow>
   world_ok (w\<lparr>hdg_deg_now := (if \<not> isfinite (rad1e4_to_deg q) then Fin 0 else rad1e4_to_deg q)\<rparr>)"
  using rad1e4_to_deg_bounded [of q]
  by (auto simp add: world_ok_def heading_ok_def isfinite_def)

text \<open>The fast-packet path and the entry point, in terms of the completed command.\<close>

lemma entry_ok:
  assumes "world_ok w"
  shows "\<exists>w'. handle_126208_entry now w s d n = Some w' \<and> world_ok w' \<and>
     (standby_inv w \<and>
      (case (if 0 < n then (if (d ! 0) AND 0xE0 \<ge> 0xA0 then Some (take (nat n) d)
                            else delivered (feed_126208_grp (grp w) s d n)) else None) of
         None \<Rightarrow> True | Some b \<Rightarrow> \<not> is_heading_write b) \<longrightarrow> standby_inv w')"
proof (cases "n \<le> 0")
  case True
  then show ?thesis using assms by (simp add: handle_126208_entry_def)
next
  case n: False
  show ?thesis
  proof (cases "(d ! 0) AND 0xE0 \<ge> 0xA0")
    case True
    then show ?thesis
      using n handle_full_ok [OF assms, of now "take (nat n) d"]
      by (auto simp add: handle_126208_entry_def)
  next
    case False
    let ?r = "feed_126208_grp (grp w) s d n"
    show ?thesis
    proof (cases "delivered ?r")
      case None
      then show ?thesis
        using n False assms by (simp add: handle_126208_entry_def feed_126208_def Let_def)
    next
      case (Some b)
      have "world_ok (w\<lparr>grp := new_grp ?r\<rparr>)" using assms by simp
      from handle_full_ok [OF this, of now b]
      show ?thesis
        using n False Some by (auto simp add: handle_126208_entry_def feed_126208_def Let_def)
    qed
  qed
qed

lemma loop_rx_ok:
  assumes "world_ok w"
  shows "\<exists>w'. loop_rx now w m = Some w' \<and> world_ok w' \<and>
     (standby_inv w \<and> (case rx_command w m of None \<Rightarrow> True | Some b \<Rightarrow> \<not> is_heading_write b)
        \<longrightarrow> standby_inv w')"
proof (cases "extd m")
  case False
  then show ?thesis using assms by (simp add: loop_rx_def)
next
  case e: True
  show ?thesis
  proof (cases "extractPGN m = PGN_CMD_GROUP")
    case True
    from entry_ok [OF assms, of now "id_source (identifier' m)" "data m" "uint (data_length_code m)"]
    show ?thesis
      using e True by (simp add: loop_rx_def rx_command_def Let_def)
  next
    case c: False
    show ?thesis
    proof (cases "extractPGN m = PGN_ISO_REQUEST")
      case True
      show ?thesis
      proof -
        obtain ms where "handle_126208_request now w
              (ucast (data m ! 0) OR push_bit 8 (ucast (data m ! 1)) OR
               push_bit 16 (ucast (data m ! 2))) = Some (can_send w ms)"
          using handle_request_ok [OF assms, of now] by blast
        then show ?thesis
          using e c True assms by (simp add: loop_rx_def rx_command_def Let_def)
      qed
    next
      case i: False
      show ?thesis
        using e c i assms world_ok_heading [OF assms]
        by (simp add: loop_rx_def rx_command_def Let_def)
    qed
  qed
qed

lemma run_rx_ok:
  "world_ok w \<Longrightarrow> \<exists>w'. run_rx w evs = Some w' \<and> world_ok w' \<and>
      (standby_inv w \<and> no_heading_write w evs \<longrightarrow> standby_inv w')"
proof (induction evs arbitrary: w)
  case Nil
  then show ?case by simp
next
  case (Cons ev evs)
  obtain now m where ev: "ev = (now, m)" by (cases ev)
  obtain w1 where w1: "loop_rx now w m = Some w1" "world_ok w1"
    "standby_inv w \<and> (case rx_command w m of None \<Rightarrow> True | Some b \<Rightarrow> \<not> is_heading_write b)
        \<longrightarrow> standby_inv w1"
    using loop_rx_ok [OF Cons.prems, of now m] by blast
  obtain w' where w': "run_rx w1 evs = Some w'" "world_ok w'"
    "standby_inv w1 \<and> no_heading_write w1 evs \<longrightarrow> standby_inv w'"
    using Cons.IH [OF w1(2)] by blast
  show ?case
    using w1 w' by (auto simp add: ev)
qed

lemma initial_world_ok: "world_ok initial_world" "standby_inv initial_world"
  by (simp_all add: world_ok_def standby_inv_def initial_world_def heading_ok_def isnan_def)

section \<open>The delivered bytes\<close>

text \<open>
  With frames that carry eight data bytes, as \<^verbatim>\<open>twai_message_t\<close> has them, the buffer
  keeps its 120 bytes, and a delivered command is the declared number of bytes: those
  accumulated so far followed by the bytes of the completing segment.
\<close>

lemma buf_length_feed:
  assumes "fp_inv g" and "length (buf g) = 120" and "length d = 8"
  shows "length (buf (new_grp (feed_126208_grp g s d n))) = 120"
proof (cases rule: feed_cases [where n=n and d=d and g=g and s=s])
  case short
  then show ?thesis using assms by (simp add: feed_short)
next
  case over
  then show ?thesis by (simp add: feed_first_over gf_reset_def)
next
  case first
  then show ?thesis using assms(3)
    by (simp add: feed_first gf_reset_def memcpy_def)
next
  case mismatch
  then show ?thesis by (simp add: feed_mismatch gf_reset_def)
next
  case cont
  have lt: "uint (filled g) < uint (total' g)" using assms cont(3) by (simp add: fp_inv_def)
  have t: "uint (total' g) \<le> 120" using assms by (simp add: fp_inv_def)
  have uf: "uint (filled g) = int (unat (filled g))" by (rule uint_nat)
  show ?thesis
  proof (cases "uint (total' g) \<le> uint (filled g) + 7")
    case True
    then show ?thesis
      by (simp add: feed_cont [OF cont lt] Let_def gf_reset_def)
  next
    case False
    then have k: "min 7 (uint (total' g) - uint (filled g)) = 7" by simp
    have "unat (filled g) + 7 \<le> 120" using False t uf by linarith
    then show ?thesis
      using False assms(2,3) unfolding uf
      by (simp add: feed_cont [OF cont lt] Let_def k [unfolded uf] memcpy_def)
  qed
qed

lemma buf_length_feed_frames:
  "fp_inv g \<Longrightarrow> length (buf g) = 120 \<Longrightarrow> \<forall>m \<in> set ms. length (data m) = 8 \<Longrightarrow>
   length (buf (feed_frames g ms)) = 120"
  by (induction ms arbitrary: g) (simp_all add: fp_inv_feed buf_length_feed)

lemma memcpy_take:
  assumes "f \<le> length B" and "c \<le> length src"
  shows "take (f + c) (memcpy B (int f) src (int c)) = take f B @ take c src"
  using assms by (simp add: memcpy_def)

lemma feed_delivered_bytes:
  assumes "fp_inv g" and "length (buf g) = 120" and "length d = 8"
    and "delivered (feed_126208_grp g s d n) = Some p"
  shows "if (d ! 0) AND 0x1F = 0
         then p = take (unat (d ! 1)) (drop 2 d) \<and> length p = unat (d ! 1)
         else p = take (unat (filled g)) (buf g) @
                    take (unat (total' g) - unat (filled g)) (drop 1 d) \<and>
              length p = unat (total' g)"
proof (cases rule: feed_cases [where n=n and d=d and g=g and s=s])
  case short
  then show ?thesis using assms(4) by (simp add: feed_short)
next
  case over
  then show ?thesis using assms(4) by (simp add: feed_first_over)
next
  case first
  have u: "uint (d ! 1) = int (unat (d ! 1))" by (rule uint_nat)
  have le: "uint (d ! 1) \<le> 6"
    using first assms(4) by (simp add: feed_first split: if_splits)
  then have l6: "unat (d ! 1) \<le> 6" using u by linarith
  have "p = take (unat (d ! 1)) (memcpy (replicate 120 0) 0 (drop 2 d) (uint (d ! 1)))"
    using first assms(4) le by (simp add: feed_first)
  then show ?thesis
    using first(2) l6 assms(3) unfolding u by (simp add: memcpy_def)
next
  case mismatch
  then show ?thesis using assms(4) by (simp add: feed_mismatch)
next
  case cont
  have lt: "uint (filled g) < uint (total' g)" using assms cont(3) by (simp add: fp_inv_def)
  have t: "uint (total' g) \<le> 120" using assms by (simp add: fp_inv_def)
  have uf: "uint (filled g) = int (unat (filled g))" by (rule uint_nat)
  have ut: "uint (total' g) = int (unat (total' g))" by (rule uint_nat)
  have c: "uint (total' g) \<le> uint (filled g) + 7"
    and p: "p = take (unat (total' g))
        (memcpy (buf g) (uint (filled g)) (drop 1 d) (min 7 (uint (total' g) - uint (filled g))))"
    using assms(4) by (simp_all add: feed_cont [OF cont lt] Let_def split: if_splits)
  define f where "f = unat (filled g)"
  define c where "c = unat (total' g) - unat (filled g)"
  have fc: "unat (total' g) = f + c" "c \<le> 7" "f \<le> 120"
    using lt t c uf ut unfolding f_def c_def by linarith+
  have k: "min 7 (uint (total' g) - uint (filled g)) = int c"
    using c lt uf ut unfolding c_def by linarith
  have "p = take (unat (total' g)) (memcpy (buf g) (int (unat (filled g))) (drop 1 d) (int c))"
    unfolding p k by (subst uf) (rule refl)
  then have "p = take (f + c) (memcpy (buf g) (int f) (drop 1 d) (int c))"
    unfolding fc(1) f_def .
  also have "\<dots> = take f (buf g) @ take c (drop 1 d)"
    using fc assms(2,3) by (intro memcpy_take) simp_all
  finally have e: "p = take f (buf g) @ take c (drop 1 d)" .
  then have "length p = f + c" using fc assms(2,3) by simp
  then show ?thesis
    using cont(2) e unfolding fc(1) unfolding f_def c_def by simp
qed

lemma reachable_buf_length:
  "\<forall>m \<in> set ms. length (data m) = 8 \<Longrightarrow> length (buf (feed_frames gf_reset ms)) = 120"
  by (rule buf_length_feed_frames [OF fp_inv_reset]) (simp_all add: gf_reset_def)

text \<open>
  Claim C6, as the code has it.  Let \<open>g\<close> be the reassembler's state after any sequence
  of frames and \<open>r\<close> the result of feeding it one more frame.  A command is delivered
  only when the accumulated byte count reaches the declared total: for a first segment
  the total is at most 6 and is all copied; for a continuation the segment matches the
  active assembly and the fill count plus the bytes copied equals the total.  With
  frames of eight data bytes, as \<^verbatim>\<open>twai_message_t\<close> has them, the delivered command is
  exactly the declared number of bytes: the segment's own bytes for a first segment, the
  bytes accumulated so far followed by the segment's bytes for a continuation.  A
  continuation of at least two bytes that does not match the active assembly in source
  address, sequence id or expected index, and a first segment of at least two bytes
  whose declared total exceeds 120, reset the assembly and deliver nothing.  A frame of
  fewer than two bytes, whatever its index and sequence id, delivers nothing and leaves
  the assembly as it is.
\<close>

theorem feed_126208_no_partial_delivery:
  assumes "g = feed_frames gf_reset ms" and "r = feed_126208_grp g s d n"
    and "fi = (d ! 0) AND 0x1F" and "sq = drop_bit 5 (d ! 0) AND 0x07"
  shows "(\<forall>p. delivered r = Some p \<longrightarrow>
            2 \<le> n \<and>
            (if fi = 0
             then uint (d ! 1) \<le> 120 \<and> min 6 (uint (d ! 1)) = uint (d ! 1)
             else active g \<and> sa g = s \<and> seq g = sq \<and> next' g = fi \<and>
                  uint (filled g) + min 7 (uint (total' g) - uint (filled g)) = uint (total' g)) \<and>
            ((\<forall>m \<in> set ms. length (data m) = 8) \<and> length d = 8 \<longrightarrow>
               (if fi = 0
                then p = take (unat (d ! 1)) (drop 2 d) \<and> length p = unat (d ! 1)
                else p = take (unat (filled g)) (buf g) @
                           take (unat (total' g) - unat (filled g)) (drop 1 d) \<and>
                     length p = unat (total' g)))) \<and>
         (2 \<le> n \<and> fi \<noteq> 0 \<and> \<not> (active g \<and> sa g = s \<and> seq g = sq \<and> next' g = fi) \<longrightarrow>
            new_grp r = gf_reset \<and> delivered r = None) \<and>
         (2 \<le> n \<and> fi = 0 \<and> 120 < uint (d ! 1) \<longrightarrow>
            new_grp r = gf_reset \<and> delivered r = None) \<and>
         (n < 2 \<longrightarrow> new_grp r = g \<and> delivered r = None)"
proof (intro conjI allI impI)
  fix p assume "delivered r = Some p"
  then have d: "delivered (feed_126208_grp g s d n) = Some p" using assms(2) by simp
  have i: "fp_inv g" using assms(1) fp_inv_reachable by simp
  show "2 \<le> n" using feed_delivered [OF i d] by simp
  show "if fi = 0
        then uint (d ! 1) \<le> 120 \<and> min 6 (uint (d ! 1)) = uint (d ! 1)
        else active g \<and> sa g = s \<and> seq g = sq \<and> next' g = fi \<and>
             uint (filled g) + min 7 (uint (total' g) - uint (filled g)) = uint (total' g)"
    unfolding assms(3,4) using feed_delivered [OF i d] by (rule conjunct2)
  assume e: "(\<forall>m \<in> set ms. length (data m) = 8) \<and> length d = 8"
  then have l: "length (buf g) = 120" using assms(1) reachable_buf_length by simp
  show "if fi = 0
        then p = take (unat (d ! 1)) (drop 2 d) \<and> length p = unat (d ! 1)
        else p = take (unat (filled g)) (buf g) @
                   take (unat (total' g) - unat (filled g)) (drop 1 d) \<and>
             length p = unat (total' g)"
    unfolding assms(3) using feed_delivered_bytes [OF i l _ d] e by blast
next
  assume a: "2 \<le> n \<and> fi \<noteq> 0 \<and> \<not> (active g \<and> sa g = s \<and> seq g = sq \<and> next' g = fi)"
  then have "feed_126208_grp g s d n = \<lparr>new_grp = gf_reset, delivered = None, copied = None\<rparr>"
    using assms(3,4) by (intro feed_mismatch) auto
  then show "new_grp r = gf_reset" "delivered r = None" using assms(2) by simp_all
next
  assume a: "2 \<le> n \<and> fi = 0 \<and> 120 < uint (d ! 1)"
  then have "feed_126208_grp g s d n = \<lparr>new_grp = gf_reset, delivered = None, copied = None\<rparr>"
    using assms(3) by (intro feed_first_over) (simp_all add: unat_gt_120)
  then show "new_grp r = gf_reset" "delivered r = None" using assms(2) by simp_all
next
  assume "n < 2"
  then show "new_grp r = g" "delivered r = None" using assms(2) by (simp_all add: feed_short)
qed

theorem feed_126208_no_partial_delivery_witness:
  "list_all (\<lambda>m. length (data m) = 8)
     [\<lparr>identifier' = 0x19EDFF21, extd = True, data_length_code = 8,
       data = [0x60, 9, 1, 2, 3, 4, 5, 6]\<rparr>] \<and>
   delivered (feed_126208_grp
      (feed_frames gf_reset
        [\<lparr>identifier' = 0x19EDFF21, extd = True, data_length_code = 8,
          data = [0x60, 9, 1, 2, 3, 4, 5, 6]\<rparr>])
      33 [0x61, 7, 8, 9, 0xFF, 0xFF, 0xFF, 0xFF] 8) = Some [1, 2, 3, 4, 5, 6, 7, 8, 9] \<and>
   (2 :: int) \<le> 8 \<and>
   uint (filled (feed_frames gf_reset
        [\<lparr>identifier' = 0x19EDFF21, extd = True, data_length_code = 8,
          data = [0x60, 9, 1, 2, 3, 4, 5, 6]\<rparr>])) + min 7 (9 - 6) = 9 \<and>
   take 6 (buf (feed_frames gf_reset
        [\<lparr>identifier' = 0x19EDFF21, extd = True, data_length_code = 8,
          data = [0x60, 9, 1, 2, 3, 4, 5, 6]\<rparr>])) @
     take (9 - 6) (drop 1 [0x61, 7, 8, 9, 0xFF, 0xFF, 0xFF, 0xFF])
     = [1, 2, 3, 4, 5, 6, 7, 8, 9 :: u8] \<and>
   new_grp (feed_126208_grp
      (feed_frames gf_reset
        [\<lparr>identifier' = 0x19EDFF21, extd = True, data_length_code = 8,
          data = [0x60, 9, 1, 2, 3, 4, 5, 6]\<rparr>])
      33 [0x62, 7, 8, 9, 0xFF, 0xFF, 0xFF, 0xFF] 8) = gf_reset \<and>
   delivered (feed_126208_grp (feed_frames gf_reset []) 33
      [0x60, 200, 1, 2, 3, 4, 5, 6] 8) = None \<and>
   delivered (feed_126208_grp
      (feed_frames gf_reset
        [\<lparr>identifier' = 0x19EDFF21, extd = True, data_length_code = 8,
          data = [0x60, 9, 1, 2, 3, 4, 5, 6]\<rparr>])
      33 [0x61, 7, 8, 9, 0xFF, 0xFF, 0xFF, 0xFF] 1) = None"
  using
    feed_126208_no_partial_delivery [OF refl refl refl refl,
      where ms = "[\<lparr>identifier' = 0x19EDFF21, extd = True, data_length_code = 8,
          data = [0x60, 9, 1, 2, 3, 4, 5, 6]\<rparr>]" and d = "[0x61, 7, 8, 9, 0xFF, 0xFF, 0xFF, 0xFF]"
        and s = 33 and n = 8]
    feed_126208_no_partial_delivery [OF refl refl refl refl,
      where ms = "[\<lparr>identifier' = 0x19EDFF21, extd = True, data_length_code = 8,
          data = [0x60, 9, 1, 2, 3, 4, 5, 6]\<rparr>]" and d = "[0x62, 7, 8, 9, 0xFF, 0xFF, 0xFF, 0xFF]"
        and s = 33 and n = 8]
    feed_126208_no_partial_delivery [OF refl refl refl refl,
      where ms = "[]" and d = "[0x60, 200, 1, 2, 3, 4, 5, 6]" and s = 33 and n = 8]
    feed_126208_no_partial_delivery [OF refl refl refl refl,
      where ms = "[\<lparr>identifier' = 0x19EDFF21, extd = True, data_length_code = 8,
          data = [0x60, 9, 1, 2, 3, 4, 5, 6]\<rparr>]" and d = "[0x61, 7, 8, 9, 0xFF, 0xFF, 0xFF, 0xFF]"
        and s = 33 and n = 1]
  unfolding wit_state
  by (simp add: feed_126208_grp_def gf_reset_def memcpy_def Let_def)

text \<open>
  The claim as stated fails for a frame of one byte.  After the first segment of a
  nine-byte command (sequence id 3, next expected index 1) a one-byte frame with the
  same sequence id and the index 5 returns at the guard \<^verbatim>\<open>n<2\<close>: the assembly is not
  discarded, and the continuation with index 1 that follows completes the command.
\<close>

theorem feed_126208_short_frame_counterexample:
  "active (feed_frames gf_reset
      [\<lparr>identifier' = 0x19EDFF21, extd = True, data_length_code = 8,
        data = [0x60, 9, 1, 2, 3, 4, 5, 6]\<rparr>]) \<and>
   next' (feed_frames gf_reset
      [\<lparr>identifier' = 0x19EDFF21, extd = True, data_length_code = 8,
        data = [0x60, 9, 1, 2, 3, 4, 5, 6]\<rparr>]) = 1 \<and>
   ([0x65, 0, 0, 0, 0, 0, 0, 0] ! 0) AND 0x1F = (5 :: u8) \<and>
   feed_frames gf_reset
      [\<lparr>identifier' = 0x19EDFF21, extd = True, data_length_code = 8,
        data = [0x60, 9, 1, 2, 3, 4, 5, 6]\<rparr>,
       \<lparr>identifier' = 0x19EDFF21, extd = True, data_length_code = 1,
        data = [0x65, 0, 0, 0, 0, 0, 0, 0]\<rparr>] =
   feed_frames gf_reset
      [\<lparr>identifier' = 0x19EDFF21, extd = True, data_length_code = 8,
        data = [0x60, 9, 1, 2, 3, 4, 5, 6]\<rparr>] \<and>
   feed_frames gf_reset
      [\<lparr>identifier' = 0x19EDFF21, extd = True, data_length_code = 8,
        data = [0x60, 9, 1, 2, 3, 4, 5, 6]\<rparr>,
       \<lparr>identifier' = 0x19EDFF21, extd = True, data_length_code = 1,
        data = [0x65, 0, 0, 0, 0, 0, 0, 0]\<rparr>] \<noteq> gf_reset \<and>
   reassemble gf_reset
      [\<lparr>identifier' = 0x19EDFF21, extd = True, data_length_code = 8,
        data = [0x60, 9, 1, 2, 3, 4, 5, 6]\<rparr>,
       \<lparr>identifier' = 0x19EDFF21, extd = True, data_length_code = 1,
        data = [0x65, 0, 0, 0, 0, 0, 0, 0]\<rparr>,
       \<lparr>identifier' = 0x19EDFF21, extd = True, data_length_code = 8,
        data = [0x61, 7, 8, 9, 0xFF, 0xFF, 0xFF, 0xFF]\<rparr>] = [[1, 2, 3, 4, 5, 6, 7, 8, 9]]"
  by (simp add: feed_126208_grp_def id_source_def gf_reset_def memcpy_def Let_def)

section \<open>A skipped index in a message that does not fit the buffer\<close>

lemma loop_length:
  "sent \<le> L \<Longrightarrow> length (n2k_send_fast_loop ident sq p L sent idx) = (L - sent + 6) div 7"
proof (induction ident sq p L sent idx rule: n2k_send_fast_loop.induct)
  case (1 ident sq p len sent idx)
  show ?case
  proof (cases "sent < len")
    case False
    then show ?thesis using "1.prems" by (simp add: loop_done)
  next
    case True
    have le: "sent + fp_chunk len sent \<le> len" using fp_chunk_le(2) [of len sent] True by simp
    show ?thesis
      unfolding loop_unfold [OF True] using "1.IH" [OF True le] True
      by (auto simp add: fp_chunk_def)
  qed
qed

lemma send_fast_length:
  assumes "unat len = length p"
  shows "length (n2k_send_fast now pgn p len prio) = 1 + (length p - min 6 (length p) + 6) div 7"
  unfolding send_fast_unfold [OF assms] by (simp add: loop_length)

lemma bumped_index_wrap:
  assumes "unat (idx :: u8) = 31"
  shows "((push_bit 5 (sq :: u8) OR (idx AND 0x1F)) + 1) AND 0x1F = 0"
proof -
  let ?x = "push_bit 5 sq OR (idx AND 0x1F)"
  have "unat idx \<le> 31" using assms by simp
  then have x: "take_bit 5 ?x = idx" using header_index [of idx sq] by (simp add: and_1F_take_bit)
  have tb: "unat (take_bit 5 w) = unat w mod 32" for w :: u8
    by (simp add: take_bit_eq_mod unat_mod)
  have su: "unat (w + 1) = (unat w + 1) mod 256" for w :: u8
    using unat_word_ariths(1) [of w 1] by simp
  have d: "(32 :: nat) dvd 256" by simp
  have "unat ?x mod 32 = 31" using x assms tb [of ?x] by simp
  then have "(unat ?x + 1) mod 32 = 0" by presburger
  moreover have "unat (take_bit 5 (?x + 1)) = (unat ?x + 1) mod 32"
    unfolding tb su by (rule mod_mod_cancel [OF d])
  ultimately have "unat (take_bit 5 (?x + 1)) = 0" by simp
  then show ?thesis unfolding and_1F_take_bit by (simp add: unat_eq_0)
qed

text \<open>
  Continuation frames fed to an inactive reassembler, one of them with its index
  incremented once more.  The frame with index 31 is the only one whose index wraps, to
  0: it is taken as a first segment, with the payload byte at position 216 as the
  declared total and the bytes after it as the command.
\<close>

lemma reassemble_loop_inactive_skip:
  "id_source ident = src \<Longrightarrow> L = length p \<Longrightarrow> L \<le> 223 \<Longrightarrow> sent < L \<Longrightarrow>
   7 * unat idx = sent + 1 \<Longrightarrow> \<not> active g \<Longrightarrow>
   j < length (n2k_send_fast_loop ident sq p L sent idx) \<Longrightarrow>
   reassemble g (skip_index j (n2k_send_fast_loop ident sq p L sent idx)) =
     (if unat idx + j = 31 \<and> p ! 216 \<le> 6
      then [take (unat (p ! 216)) (drop 217 p @ replicate (223 - L) 0xFF)] else [])"
proof (induction ident sq p L sent idx arbitrary: g j rule: n2k_send_fast_loop.induct)
  case (1 ident sq p len sent idx)
  let ?t = "fp_chunk len sent"
  let ?d = "(push_bit 5 sq OR (idx AND 0x1F)) # take ?t (drop sent p) @ replicate (7 - ?t) 0xFF"
  let ?rest = "n2k_send_fast_loop ident sq p len (sent + ?t) (idx + 1)"
  note sent = \<open>sent < len\<close>
  note inv = \<open>7 * unat idx = sent + 1\<close>
  note src = \<open>id_source ident = src\<close>
  have ld: "length ?d = 8" using loop_frame_length [OF sent \<open>len = length p\<close>] .
  have idx: "unat idx \<le> 31" "idx \<noteq> 0"
    using inv sent \<open>len \<le> 223\<close> by auto
  have unf: "n2k_send_fast_loop ident sq p len sent idx = twai_tx ident ?d 8 # ?rest"
    by (rule loop_unfold [OF sent])
  have nxt: "sent + ?t < len \<longrightarrow> 7 * unat (idx + 1) = sent + ?t + 1"
  proof
    assume "sent + ?t < len"
    then have "?t = 7" by (simp add: fp_chunk_def split: if_splits)
    then show "7 * unat (idx + 1) = sent + ?t + 1"
      using unat_suc_u8 [of idx] idx(1) inv by simp
  qed
  show ?case
  proof (cases j)
    case 0
    let ?d' = "?d[0 := ((?d ! 0) AND 0xE0) OR (((?d ! 0) + 1) AND 0x1F)]"
    have ld': "length ?d' = 8" using ld by simp
    have d0: "?d' ! 0 = ((push_bit 5 sq OR (idx AND 0x1F)) AND 0xE0) OR
        (((push_bit 5 sq OR (idx AND 0x1F)) + 1) AND 0x1F)"
      by simp
    have step: "reassemble g (skip_index j (n2k_send_fast_loop ident sq p len sent idx)) =
        (case delivered (feed_126208_grp g src ?d' 8) of None \<Rightarrow> [] | Some q \<Rightarrow> [q]) @
        reassemble (new_grp (feed_126208_grp g src ?d' 8)) ?rest"
      unfolding unf 0 skip_index_simps bump_index_twai_tx [OF ld]
        reassemble_step [OF ld' src] by (rule refl)
    show ?thesis
    proof (cases "unat idx < 31")
      case True
      have fi: "(?d' ! 0) AND 0x1F = idx + 1"
        unfolding d0 and_E0_index by (rule bumped_index [OF True])
      have "unat (idx + 1) = unat idx + 1" using unat_suc_u8 [of idx] True by simp
      then have ne: "idx + 1 \<noteq> 0" by (auto simp add: word_unat_eq_iff)
      have st: "feed_126208_grp g src ?d' 8 = \<lparr>new_grp = gf_reset, delivered = None, copied = None\<rparr>"
        using fi ne \<open>\<not> active g\<close> by (intro feed_mismatch) simp_all
      have r: "reassemble gf_reset ?rest = []"
        using src \<open>len = length p\<close> \<open>len \<le> 223\<close> nxt gf_reset_inactive
        by (intro reassemble_loop_inactive [where src = src]) simp_all
      show ?thesis
        unfolding step st using r True 0 by simp
    next
      case False
      then have i31: "unat idx = 31" using idx(1) by simp
      then have s216: "sent = 216" using inv by simp
      have t: "?t = len - sent" using \<open>len \<le> 223\<close> sent s216 by (simp add: fp_chunk_def)
      have t1: "0 < ?t" "?t \<le> 7" using sent \<open>len \<le> 223\<close> s216 unfolding t by simp_all
      have rest: "?rest = []"
        using sent unfolding t by (intro loop_done) simp
      have fi: "(?d' ! 0) AND 0x1F = 0"
        unfolding d0 and_E0_index by (rule bumped_index_wrap [OF i31])
      have lp: "216 < length p" using sent \<open>len = length p\<close> s216 by simp
      have "?d' ! 1 = take ?t (drop sent p) ! 0"
        using t1 sent \<open>len = length p\<close> by (simp add: nth_append)
      also have "\<dots> = p ! 216" using t1 lp s216 by simp
      finally have d1: "?d' ! 1 = p ! 216" .
      have dr: "drop 2 ?d' = drop 217 p @ replicate (223 - len) 0xFF"
      proof -
        have "length (take ?t (drop sent p)) = ?t"
          using fp_chunk_le(2) [of len sent] \<open>len = length p\<close> by simp
        then have a: "drop 2 ?d' = drop 1 (take ?t (drop sent p)) @ replicate (7 - ?t) 0xFF"
          using t1 by (simp add: drop_Cons')
        have b: "drop 1 (take ?t (drop sent p)) = drop 217 p"
          using \<open>len = length p\<close> lp s216 unfolding t by (simp add: drop_take)
        have c: "7 - ?t = 223 - len" using \<open>len \<le> 223\<close> sent s216 unfolding t by simp
        show ?thesis unfolding a unfolding b c by (rule refl)
      qed
      have len6: "length (drop 217 p @ replicate (223 - len) (0xFF :: u8)) = 6"
        using \<open>len = length p\<close> \<open>len \<le> 223\<close> lp by simp
      show ?thesis
      proof (cases "120 < unat (p ! 216)")
        case True
        have st: "feed_126208_grp g src ?d' 8 = \<lparr>new_grp = gf_reset, delivered = None, copied = None\<rparr>"
        proof (rule feed_first_over [OF _ fi])
          show "(2 :: int) \<le> 8" by simp
          show "120 < unat (?d' ! 1)" unfolding d1 by (rule True)
        qed
        have "\<not> p ! 216 \<le> 6" using True by (simp add: word_le_nat_alt)
        then show ?thesis unfolding step st rest by simp
      next
        case False
        have "unat (p ! 216) \<le> 120" using False by simp
        then have le: "unat (?d' ! 1) \<le> 120" unfolding d1 .
        have st: "feed_126208_grp g src ?d' 8 =
           (if uint (?d' ! 1) \<le> 6
            then \<lparr>new_grp = gf_reset,
                  delivered = Some (take (unat (?d' ! 1))
                     (memcpy (replicate 120 0) 0 (drop 2 ?d') (uint (?d' ! 1)))),
                  copied = Some (0, uint (?d' ! 1))\<rparr>
            else \<lparr>new_grp = \<lparr>active = True, sa = src, seq = drop_bit 5 (?d' ! 0) AND 0x07,
                      total' = ?d' ! 1, next' = 1, filled = 6,
                      buf = memcpy (replicate 120 0) 0 (drop 2 ?d') 6\<rparr>,
                  delivered = None, copied = Some (0, 6)\<rparr>)"
          by (rule feed_first [OF _ fi le]) simp
        show ?thesis
        proof (cases "p ! 216 \<le> 6")
          case True
          then have u6: "unat (p ! 216) \<le> 6" by (simp add: word_le_nat_alt)
          have ui2: "uint (p ! 216) = int (unat (p ! 216))" by (rule uint_nat)
          then have ui1: "uint (p ! 216) \<le> 6" using u6 by linarith
          note ui = ui1 ui2
          have "take (0 + unat (p ! 216))
              (memcpy (replicate 120 0) (int 0) (drop 217 p @ replicate (223 - len) 0xFF)
                 (int (unat (p ! 216)))) =
              take 0 (replicate 120 0) @
              take (unat (p ! 216)) (drop 217 p @ replicate (223 - len) 0xFF)"
            using u6 len6 by (intro memcpy_take) simp_all
          then have mc: "take (unat (p ! 216))
              (memcpy (replicate 120 0) 0 (drop 217 p @ replicate (223 - len) 0xFF)
                 (uint (p ! 216))) =
              take (unat (p ! 216)) (drop 217 p @ replicate (223 - len) 0xFF)"
            unfolding ui(2) by simp
          have dl: "delivered (feed_126208_grp g src ?d' 8) =
              Some (take (unat (p ! 216)) (drop 217 p @ replicate (223 - len) 0xFF))"
            unfolding st d1 dr using ui(1) mc by simp
          show ?thesis
            unfolding step dl rest using True i31 0 by simp
        next
          case False
          then have "\<not> uint (p ! 216) \<le> 6" by (simp add: word_le_def)
          then have dl: "delivered (feed_126208_grp g src ?d' 8) = None"
            unfolding st d1 by simp
          show ?thesis
            unfolding step dl rest using False by simp
        qed
      qed
    qed
  next
    case (Suc j')
    then have jr: "j' < length ?rest" using "1.prems"(7) unfolding unf by simp
    then have more: "sent + ?t < len"
      by (cases "sent + ?t < len") (simp_all add: loop_done)
    have fi: "(?d ! 0) AND 0x1F \<noteq> 0" using header_index [OF idx(1)] idx(2) by simp
    have st: "feed_126208_grp g src ?d 8 = \<lparr>new_grp = gf_reset, delivered = None, copied = None\<rparr>"
      using fi \<open>\<not> active g\<close> by (intro feed_mismatch) simp_all
    have i1: "unat (idx + 1) = unat idx + 1" using unat_suc_u8 [of idx] idx(1) by simp
    have ih: "reassemble gf_reset (skip_index j' ?rest) =
        (if unat (idx + 1) + j' = 31 \<and> p ! 216 \<le> 6
         then [take (unat (p ! 216)) (drop 217 p @ replicate (223 - len) 0xFF)] else [])"
    proof (rule "1.IH" [OF sent])
      show "id_source ident = src" "len = length p" "len \<le> 223" by fact+
      show "sent + ?t < len" by (rule more)
      show "7 * unat (idx + 1) = sent + ?t + 1" using nxt more by simp
      show "\<not> active gf_reset" by (rule gf_reset_inactive)
      show "j' < length ?rest" by (rule jr)
    qed
    show ?thesis
      unfolding unf Suc skip_index_simps reassemble_step [OF ld src] st
      using ih i1 by simp
  qed
qed

lemma round_trip_over_skip:
  assumes len: "unat len = length p" and L: "120 < length p" "length p \<le> 223"
    and k: "0 < k" "k < length (n2k_send_fast now pgn p len prio)"
  shows "reassemble g (skip_index k (n2k_send_fast now pgn p len prio)) =
     (if k = 31 \<and> p ! 216 \<le> 6
      then [take (unat (p ! 216)) (drop 217 p @ replicate (223 - length p) 0xFF)] else [])"
proof -
  let ?sq = "ucast (drop_bit 5 now AND 0x07) :: u8"
  let ?ident = "n2k_id prio pgn SA"
  let ?t = "min 6 (length p)"
  let ?d = "[push_bit 5 ?sq OR 0, ucast len] @ take ?t p @ replicate (6 - ?t) 0xFF"
  let ?rest = "n2k_send_fast_loop ?ident ?sq p (length p) ?t 1"
  obtain j where j: "k = Suc j" using k(1) by (cases k) simp_all
  have jr: "j < length ?rest" using k(2) unfolding send_fast_unfold [OF len] j by simp
  have t: "?t = 6" using L by simp
  have ld: "length ?d = 8" by (simp add: min_def)
  have src: "id_source ?ident = SA" by (rule id_source_n2k_id)
  have fi: "(?d ! 0) AND 0x1F = 0" using first_header_index [of ?sq] by simp
  have ul: "unat (?d ! 1) = length p"
    using ucast_len(1) [OF len] L by simp
  have st: "feed_126208_grp g SA ?d 8 = \<lparr>new_grp = gf_reset, delivered = None, copied = None\<rparr>"
    using fi ul L by (intro feed_first_over) simp_all
  have lp: "reassemble gf_reset (skip_index j (n2k_send_fast_loop ?ident ?sq p (length p) 6 1)) =
     (if unat (1 :: u8) + j = 31 \<and> p ! 216 \<le> 6
      then [take (unat (p ! 216)) (drop 217 p @ replicate (223 - length p) 0xFF)] else [])"
    using src L gf_reset_inactive jr t
    by (intro reassemble_loop_inactive_skip [where src = SA]) simp_all
  have "reassemble g (skip_index k (n2k_send_fast now pgn p len prio)) =
      (case delivered (feed_126208_grp g SA ?d 8) of None \<Rightarrow> [] | Some p \<Rightarrow> [p]) @
      reassemble (new_grp (feed_126208_grp g SA ?d 8)) (skip_index j ?rest)"
    unfolding send_fast_unfold [OF len] j skip_index_simps reassemble_step [OF ld src] by (rule refl)
  also have "\<dots> = reassemble gf_reset (skip_index j (n2k_send_fast_loop ?ident ?sq p (length p) 6 1))"
    unfolding st by (simp add: t)
  finally show ?thesis using lp j by simp
qed

text \<open>
  Claim C1, as the code has it.  Feeding the frames that \<^verbatim>\<open>n2k_send_fast\<close> produces for a
  payload, in order, to the reassembler (from any state of \<^verbatim>\<open>grp\<close>) delivers exactly one
  command, the payload itself, when the payload has at most 120 bytes, the capacity of
  \<^verbatim>\<open>grp.buf\<close>; this covers the lengths 9 and 50.  For a payload of 121 to 223 bytes,
  which covers 223, the first frame is discarded and nothing is delivered.  The frame
  sequence with the index of one continuation frame incremented once more delivers
  nothing when the payload has at most 120 bytes.  When it has 121 to 223 bytes it
  delivers nothing either, with one exception: the bumped index of frame 31, the last
  frame of a payload of 217 to 223 bytes, wraps to 0, so that frame is taken as a first
  segment whose declared total is the payload byte at position 216; if that byte is at
  most 6, the bytes that follow it are delivered as a command.
\<close>

theorem fast_packet_round_trip:
  assumes "unat len = length payload"
  shows "(length payload \<le> 120 \<longrightarrow>
            reassemble g (n2k_send_fast now pgn payload len prio) = [payload]) \<and>
         (120 < length payload \<and> length payload \<le> 223 \<longrightarrow>
            reassemble g (n2k_send_fast now pgn payload len prio) = []) \<and>
         (length payload \<le> 120 \<and> 0 < k \<and>
          k < length (n2k_send_fast now pgn payload len prio) \<longrightarrow>
            reassemble g (skip_index k (n2k_send_fast now pgn payload len prio)) = []) \<and>
         (120 < length payload \<and> length payload \<le> 223 \<and> 0 < k \<and>
          k < length (n2k_send_fast now pgn payload len prio) \<longrightarrow>
            reassemble g (skip_index k (n2k_send_fast now pgn payload len prio)) =
              (if k = 31 \<and> payload ! 216 \<le> 6
               then [take (unat (payload ! 216))
                       (drop 217 payload @ replicate (223 - length payload) 0xFF)]
               else []))"
  using round_trip_ok [OF assms] round_trip_over [OF assms] round_trip_skip [OF assms]
    round_trip_over_skip [OF assms]
  by blast

lemma send_fast_length_9:
  "length (n2k_send_fast 0x60 126208 [1, 2, 3, 4, 5, 6, 7, 8, 9] 9 6) = 2"
  by (simp add: send_fast_length)

lemma send_fast_length_223:
  "length (n2k_send_fast 0x60 126208 (replicate 223 0x5A) 223 6) = 32"
  "length (n2k_send_fast 0x60 126208 (replicate 216 0x5A @ [3, 1, 2, 3, 4, 5, 6]) 223 6) = 32"
  by (simp_all add: send_fast_length)

theorem fast_packet_round_trip_witness:
  "reassemble gf_reset (n2k_send_fast 0x60 126208 [1, 2, 3, 4, 5, 6, 7, 8, 9] 9 6)
     = [[1, 2, 3, 4, 5, 6, 7, 8, 9]] \<and>
   reassemble gf_reset (n2k_send_fast 0x60 126208 (replicate 50 0x5A) 50 6)
     = [replicate 50 0x5A] \<and>
   reassemble gf_reset (n2k_send_fast 0x60 126208 (replicate 223 0x5A) 223 6) = [] \<and>
   reassemble gf_reset
     (skip_index 1 (n2k_send_fast 0x60 126208 [1, 2, 3, 4, 5, 6, 7, 8, 9] 9 6)) = [] \<and>
   reassemble gf_reset
     (skip_index 30 (n2k_send_fast 0x60 126208 (replicate 223 0x5A) 223 6)) = [] \<and>
   reassemble gf_reset
     (skip_index 31 (n2k_send_fast 0x60 126208 (replicate 223 0x5A) 223 6)) = []"
  using
    fast_packet_round_trip [where len = 9 and payload = "[1, 2, 3, 4, 5, 6, 7, 8, 9]"
      and g = gf_reset and now = 96 and pgn = 126208 and prio = 6 and k = 1]
    fast_packet_round_trip [where len = 50 and payload = "replicate 50 0x5A"
      and g = gf_reset and now = 96 and pgn = 126208 and prio = 6 and k = 1]
    fast_packet_round_trip [where len = 223 and payload = "replicate 223 0x5A"
      and g = gf_reset and now = 96 and pgn = 126208 and prio = 6 and k = 30]
    fast_packet_round_trip [where len = 223 and payload = "replicate 223 0x5A"
      and g = gf_reset and now = 96 and pgn = 126208 and prio = 6 and k = 31]
    send_fast_length_9 send_fast_length_223(1)
  by (simp add: word_le_nat_alt)

text \<open>
  The claim as stated fails at 223 bytes, in both halves.  In order, the declared length
  exceeds the 120-byte buffer, the first frame is discarded, and the reassembler
  delivers nothing instead of the payload.  With the index of the last of the 32 frames
  incremented once more, the index 31 wraps to 0 and the frame is taken as a first
  segment: for a payload that ends in \<^verbatim>\<open>03 01 02 03 04 05 06\<close> the reassembler delivers the
  three bytes \<^verbatim>\<open>01 02 03\<close>.
\<close>

theorem fast_packet_223_counterexample:
  "reassemble gf_reset (n2k_send_fast 0x60 126208 (replicate 223 0x5A) 223 6) = [] \<and>
   reassemble gf_reset (n2k_send_fast 0x60 126208 (replicate 223 0x5A) 223 6)
     \<noteq> [replicate 223 0x5A] \<and>
   length (replicate 216 0x5A @ [3, 1, 2, 3, 4, 5, 6 :: u8]) = 223 \<and>
   length (n2k_send_fast 0x60 126208 (replicate 216 0x5A @ [3, 1, 2, 3, 4, 5, 6]) 223 6) = 32 \<and>
   reassemble gf_reset
     (skip_index 31
        (n2k_send_fast 0x60 126208 (replicate 216 0x5A @ [3, 1, 2, 3, 4, 5, 6]) 223 6))
     = [[1, 2, 3]] \<and>
   reassemble gf_reset
     (skip_index 31
        (n2k_send_fast 0x60 126208 (replicate 216 0x5A @ [3, 1, 2, 3, 4, 5, 6]) 223 6))
     \<noteq> []"
  using round_trip_over [where len = 223 and p = "replicate 223 0x5A" and g = gf_reset
      and now = 96 and pgn = 126208 and prio = 6]
    round_trip_over_skip [where len = 223 and p = "replicate 216 0x5A @ [3, 1, 2, 3, 4, 5, 6]"
      and g = gf_reset and now = 96 and pgn = 126208 and prio = 6 and k = 31]
    send_fast_length_223(2)
  by (simp add: nth_append)

section \<open>Rounding a given number\<close>

text \<open>
  The rounding of a number that is known to lie in a binade, from the nearest multiple of
  the unit in the last place.
\<close>

lemma bitlen_eqI:
  assumes "0 < n" and "2 ^ (n - 1) \<le> k" and "k < 2 ^ n"
  shows "bitlen k = n"
proof -
  have k: "0 < k" using assms(2) by (smt (verit) zero_less_power)
  from bitlen_bounds [OF k] have b: "2 ^ (bitlen k - 1) \<le> k" "k < 2 ^ bitlen k" by simp_all
  have bp: "0 < bitlen k" using k by (subst bitlen.simps) simp
  have "(2::int) ^ (n - 1) < 2 ^ bitlen k" using assms(2) b(2) by linarith
  then have "n - 1 < bitlen k" by simp
  moreover have "(2::int) ^ (bitlen k - 1) < 2 ^ n" using assms(3) b(1) by linarith
  then have "bitlen k - 1 < n" by simp
  ultimately show ?thesis using assms(1) bp by linarith
qed

lemma rne_eqI:
  assumes "\<bar>y - of_int m\<bar> < 1 / 2"
  shows "rne y = m"
proof -
  have f: "of_int \<lfloor>y\<rfloor> \<le> y" "y < of_int \<lfloor>y\<rfloor> + 1" by linarith+
  show ?thesis
  proof (cases "of_int m \<le> y")
    case True
    then have "\<lfloor>y\<rfloor> = m" using assms by (intro floor_unique) linarith+
    then show ?thesis using assms True by (simp add: rne_def Let_def)
  next
    case False
    then have "\<lfloor>y\<rfloor> = m - 1" using assms by (intro floor_unique) (simp, linarith+)
    then show ?thesis using assms False by (simp add: rne_def Let_def)
  qed
qed

lemma f32_round_eqI:
  assumes "0 < n" and "2 ^ (n - 1) \<le> \<bar>x\<bar> * 2 ^ 149" and "\<bar>x\<bar> * 2 ^ 149 < 2 ^ n"
    and "\<bar>x * 2 ^ 149 / 2 ^ (n - 24) - of_int m\<bar> < 1 / 2"
  shows "f32_round x = of_int m * 2 ^ (n - 24) / 2 ^ 149"
proof -
  have "(2::int) ^ (n - 1) \<le> \<lfloor>\<bar>x\<bar> * 2 ^ 149\<rfloor>"
    using assms(2) by (simp add: le_floor_iff)
  moreover have "\<lfloor>\<bar>x\<bar> * 2 ^ 149\<rfloor> < (2::int) ^ n"
    using assms(3) by (simp add: floor_less_iff)
  ultimately have b: "bitlen \<lfloor>\<bar>x\<bar> * 2 ^ 149\<rfloor> = n"
    using assms(1) by (intro bitlen_eqI)
  have u: "f32_ulp x = 2 ^ (n - 24) / 2 ^ 149"
    unfolding f32_ulp_def b ..
  have "x / f32_ulp x = x * 2 ^ 149 / 2 ^ (n - 24)"
    unfolding u by simp
  then have "rne (x / f32_ulp x) = m"
    using assms(4) by (intro rne_eqI) simp
  then show ?thesis
    by (simp add: f32_round_def u)
qed

lemma f32_round_0: "f32_round 0 = 0"
  by (simp add: f32_round_def rne_def)

lemma floor_rat_numeral: "\<lfloor>numeral a / numeral b :: rat\<rfloor> = numeral a div numeral b"
  using floor_divide_of_int_eq [of "numeral a" "numeral b", where ?'a = rat] by simp

section \<open>Two heading fields\<close>

lemma heading_field_16:
  "gf65360_extractMagHeading ([0x06, 0x10, 0x00] @ t) = Some (Fin (6152087 / 67108864))"
proof -
  have a: "float_of_int 16 = Fin 16"
    using f32_round_eqI [of 154 "16" 8388608] by (simp add: float_of_int_def f32_def FLT_MAX_def)
  have b: "flit (1 / 10000) = Fin (13743895 / 137438953472)"
    using f32_round_eqI [of 136 "1 / 10000" 13743895] by (simp add: flit_def)
  have c: "fmul (Fin 16) (Fin (13743895 / 137438953472)) = Fin (13743895 / 8589934592)"
    using f32_round_eqI [of 140 "16 * (13743895 / 137438953472)" 13743895] by (simp add: f32_def FLT_MAX_def)
  have d: "fmul (Fin (13743895 / 8589934592)) (Fin 180) = Fin (2415919 / 8388608)"
    using f32_round_eqI [of 148 "(13743895 / 8589934592) * 180" 9663676] by (simp add: f32_def FLT_MAX_def)
  have e: "fdiv (Fin (2415919 / 8388608)) M_PI_f = Fin (6152087 / 67108864)"
    using f32_round_eqI [of 146 "(2415919 / 8388608) / (13176795 / 4194304)" 12304174] by (simp add: M_PI_f_def f32_def FLT_MAX_def)
  have "fdiv (fmul (fmul (float_of_int 16) (flit (1 / 10000))) (Fin 180)) M_PI_f = Fin (6152087 / 67108864)"
    by (simp only: a b c d e)
  then show ?thesis
    by (simp add: gf65360_extractMagHeading_def extractMagHeading_loop.simps)
qed

lemma norm360_heading_16:
  "norm360 (Fin (6152087 / 67108864)) = Some (Fin (6152087 / 67108864))"
  by (simp add: norm360_def while_neg_add360.simps while_ge360_sub360.simps)



section \<open>The navigation datagram at the literal input\<close>

lemma nav_bytes_430:
  "st_nav_0x85_bytes (Fin (- (1 / 4))) (Fin (367 / 2)) (flit (43 / 10)) True =
     Some [0x85, 0x60, 0x19, 0x72, 0x10, 0x1A, 0xF7, 0x00, 0xF7]"
proof -
  have l1: "flit (819 / 20) = Fin (10734797 / 262144)"
    using f32_round_eqI [of 155 "819 / 20" 10734797] by (simp add: flit_def)
  have x: "fmul (Fin (1 / 4)) (Fin 100) = Fin 25"
    using f32_round_eqI [of 154 "1 / 4 * 100" 13107200] by (simp add: f32_def FLT_MAX_def)
  have ba: "fadd (Fin (367 / 2)) (Fin 360) = Fin (1087 / 2)"
    using f32_round_eqI [of 159 "367 / 2 + 360" 8904704] by (simp add: f32_def FLT_MAX_def)
  have q: "fdiv (Fin (367 / 2)) (Fin 90) = Fin (1068965 / 524288)"
    using f32_round_eqI [of 151 "367 / 2 / 90" 8551720] by (simp add: f32_def FLT_MAX_def)
  have qf: "float_of_int 2 = Fin 2"
    using f32_round_eqI [of 151 "2" 8388608] by (simp add: float_of_int_def f32_def FLT_MAX_def)
  have qm: "fmul (Fin 2) (Fin 90) = Fin 180"
    using f32_round_eqI [of 157 "2 * 90" 11796480] by (simp add: f32_def FLT_MAX_def)
  have rm: "fsub (Fin (367 / 2)) (Fin 180) = Fin (7 / 2)"
    using f32_round_eqI [of 151 "367 / 2 + - 180" 14680064] by (simp add: fsub_def f32_def FLT_MAX_def)
  have wv: "fmul (Fin (7 / 2)) (Fin 2) = Fin 7"
    using f32_round_eqI [of 152 "7 / 2 * 2" 14680064] by (simp add: f32_def FLT_MAX_def)
  have l2: "flit (819 / 2) = Fin (819 / 2)"
    using f32_round_eqI [of 158 "819 / 2" 13418496] by (simp add: flit_def)
  have dl: "flit (43 / 10) = Fin (4508877 / 1048576)"
    using f32_round_eqI [of 152 "43 / 10" 9017754] by (simp add: flit_def)
  have dm: "fmul (Fin (4508877 / 1048576)) (Fin 100) = Fin (14090241 / 32768)"
    using f32_round_eqI [of 158 "(4508877 / 1048576) * 100" 14090241] by (simp add: f32_def FLT_MAX_def)
  show ?thesis
    by (simp add: st_nav_0x85_bytes_def Let_def clampf_def l1 x ba q qf qm rm wv l2 dl dm
        float_to_uint_def trunc_def round_away_def floor_rat_numeral
        del: fmul.simps fadd.simps fdiv.simps)
qed

lemma nav_bytes_431:
  "st_nav_0x85_bytes (Fin (- (1 / 4))) (Fin (367 / 2)) (flit (431 / 100)) True =
     Some [0x85, 0x60, 0x19, 0x72, 0x10, 0x1A, 0xF7, 0x00, 0xF7]"
proof -
  have l1: "flit (819 / 20) = Fin (10734797 / 262144)"
    using f32_round_eqI [of 155 "819 / 20" 10734797] by (simp add: flit_def)
  have x: "fmul (Fin (1 / 4)) (Fin 100) = Fin 25"
    using f32_round_eqI [of 154 "1 / 4 * 100" 13107200] by (simp add: f32_def FLT_MAX_def)
  have ba: "fadd (Fin (367 / 2)) (Fin 360) = Fin (1087 / 2)"
    using f32_round_eqI [of 159 "367 / 2 + 360" 8904704] by (simp add: f32_def FLT_MAX_def)
  have q: "fdiv (Fin (367 / 2)) (Fin 90) = Fin (1068965 / 524288)"
    using f32_round_eqI [of 151 "367 / 2 / 90" 8551720] by (simp add: f32_def FLT_MAX_def)
  have qf: "float_of_int 2 = Fin 2"
    using f32_round_eqI [of 151 "2" 8388608] by (simp add: float_of_int_def f32_def FLT_MAX_def)
  have qm: "fmul (Fin 2) (Fin 90) = Fin 180"
    using f32_round_eqI [of 157 "2 * 90" 11796480] by (simp add: f32_def FLT_MAX_def)
  have rm: "fsub (Fin (367 / 2)) (Fin 180) = Fin (7 / 2)"
    using f32_round_eqI [of 151 "367 / 2 + - 180" 14680064] by (simp add: fsub_def f32_def FLT_MAX_def)
  have wv: "fmul (Fin (7 / 2)) (Fin 2) = Fin 7"
    using f32_round_eqI [of 152 "7 / 2 * 2" 14680064] by (simp add: f32_def FLT_MAX_def)
  have l2: "flit (819 / 2) = Fin (819 / 2)"
    using f32_round_eqI [of 158 "819 / 2" 13418496] by (simp add: flit_def)
  have dl: "flit (431 / 100) = Fin (9038725 / 2097152)"
    using f32_round_eqI [of 152 "431 / 100" 9038725] by (simp add: flit_def)
  have dm: "fmul (Fin (9038725 / 2097152)) (Fin 100) = Fin 431"
    using f32_round_eqI [of 158 "(9038725 / 2097152) * 100" 14123008] by (simp add: f32_def FLT_MAX_def)
  show ?thesis
    by (simp add: st_nav_0x85_bytes_def Let_def clampf_def l1 x ba q qf qm rm wv l2 dl dm
        float_to_uint_def trunc_def round_away_def floor_rat_numeral
        del: fmul.simps fadd.simps fdiv.simps)
qed

section \<open>Standby and the locked heading\<close>

lemma loop_rx_heading_write:
  assumes "heading_written w m"
  shows "\<exists>w0 h. loop_rx now w m = Some (w0\<lparr>locked_hdg_deg := Fin h\<rparr>)"
proof -
  let ?d = "data m" and ?n = "uint (data_length_code m)"
  obtain b where b: "rx_command w m = Some b" "is_heading_write b"
    using assms by (auto simp add: heading_written_def split: option.splits)
  have c: "extd m" "extractPGN m = PGN_CMD_GROUP" "0 < ?n"
    using b(1) by (auto simp add: rx_command_def Let_def split: if_splits)
  have l: "loop_rx now w m = handle_126208_entry now w (id_source (identifier' m)) ?d ?n"
    using c by (simp add: loop_rx_def Let_def)
  obtain newH where n: "gf65360_extractMagHeading (drop 4 b) = Some newH"
    using b(2) by (auto simp add: is_heading_write_def)
  have hw: "\<exists>h. handle_126208_full now v b =
       Some ((snd (apply_rm_selector_or_button v (drop 4 b)))\<lparr>locked_hdg_deg := Fin h\<rparr>)" for v
    using handle_full_heading_write [OF _ _ _ n, of now v] b(2)
    by (auto simp add: is_heading_write_def)
  show ?thesis
  proof (cases "(?d ! 0) AND 0xE0 \<ge> 0xA0")
    case True
    then have "b = take (nat ?n) ?d" using b(1) c by (simp add: rx_command_def Let_def)
    then have "loop_rx now w m = handle_126208_full now w b"
      unfolding l using True c(3) by (simp add: handle_126208_entry_def)
    then show ?thesis using hw [of w] by auto
  next
    case False
    let ?r = "feed_126208_grp (grp w) (id_source (identifier' m)) ?d ?n"
    have "delivered ?r = Some b" using b(1) c False by (simp add: rx_command_def Let_def)
    then have "loop_rx now w m = handle_126208_full now (w\<lparr>grp := new_grp ?r\<rparr>) b"
      unfolding l using False c(3) by (simp add: handle_126208_entry_def feed_126208_def Let_def)
    then show ?thesis using hw [of "w\<lparr>grp := new_grp ?r\<rparr>"] by auto
  qed
qed

text \<open>
  One received frame, from a state that has the invariant: the new state has it unless
  the frame writes the locked heading and leaves the mode Standby, and then it has not.
\<close>

lemma loop_rx_step:
  assumes "world_ok w" and "standby_inv w"
  shows "\<exists>w'. loop_rx now w m = Some w' \<and> world_ok w' \<and>
     (standby_inv w' \<longleftrightarrow> \<not> (heading_written w m \<and> currentMode w' = PM_STBY))"
proof -
  obtain w' where w': "loop_rx now w m = Some w'" "world_ok w'"
    "standby_inv w \<and> (case rx_command w m of None \<Rightarrow> True | Some b \<Rightarrow> \<not> is_heading_write b)
        \<longrightarrow> standby_inv w'"
    using loop_rx_ok [OF assms(1), of now m] by blast
  show ?thesis
  proof (cases "heading_written w m")
    case True
    then obtain w0 h where "loop_rx now w m = Some (w0\<lparr>locked_hdg_deg := Fin h\<rparr>)"
      using loop_rx_heading_write by blast
    then have "\<not> isnan (locked_hdg_deg w')" using w'(1) by (auto simp add: isnan_def)
    then show ?thesis using w'(1,2) True by (simp add: standby_inv_def)
  next
    case False
    then have "case rx_command w m of None \<Rightarrow> True | Some b \<Rightarrow> \<not> is_heading_write b"
      by (simp add: heading_written_def split: option.splits)
    then show ?thesis using w' assms(2) False by simp
  qed
qed

lemma run_rx_inv:
  "world_ok w \<Longrightarrow> standby_inv w \<Longrightarrow> no_standby_heading_write w evs \<Longrightarrow>
   \<exists>w'. run_rx w evs = Some w' \<and> world_ok w' \<and> standby_inv w'"
proof (induction evs arbitrary: w)
  case Nil
  then show ?case by simp
next
  case (Cons ev evs)
  obtain now m where ev: "ev = (now, m)" by (cases ev)
  obtain w1 where w1: "loop_rx now w m = Some w1" "world_ok w1"
    "standby_inv w1 \<longleftrightarrow> \<not> (heading_written w m \<and> currentMode w1 = PM_STBY)"
    using loop_rx_step [OF Cons.prems(1,2), of now m] by blast
  have "standby_inv w1" "no_standby_heading_write w1 evs"
    using Cons.prems(3) w1(1,3) unfolding ev by simp_all
  then show ?case
    using Cons.IH [OF w1(2)] w1(1) by (simp add: ev)
qed

text \<open>
  Claim C3, as the code has it.  Every sequence of received frames is processed to the
  end.  If no frame of the sequence completes a write-command to PGN 65360 with a heading
  field and leaves the mode Standby, then in the state after the sequence the locked
  heading is NaN whenever the mode is Standby.  This is the only exception: one more
  frame keeps the invariant exactly when it is not such a write.
\<close>

theorem standby_locked_heading_nan:
  assumes "no_standby_heading_write initial_world evs"
  shows "\<exists>w. run_rx initial_world evs = Some w \<and>
           (currentMode w = PM_STBY \<longrightarrow> isnan (locked_hdg_deg w)) \<and>
           (\<forall>now m. \<exists>w'. loop_rx now w m = Some w' \<and>
              ((currentMode w' = PM_STBY \<longrightarrow> isnan (locked_hdg_deg w')) \<longleftrightarrow>
               \<not> (heading_written w m \<and> currentMode w' = PM_STBY)))"
proof -
  obtain w where w: "run_rx initial_world evs = Some w" "world_ok w" "standby_inv w"
    using run_rx_inv [OF initial_world_ok assms] by blast
  have "\<exists>w'. loop_rx now w m = Some w' \<and>
      ((currentMode w' = PM_STBY \<longrightarrow> isnan (locked_hdg_deg w')) \<longleftrightarrow>
       \<not> (heading_written w m \<and> currentMode w' = PM_STBY))" for now m
    using loop_rx_step [OF w(2,3), of now m] unfolding standby_inv_def by blast
  then show ?thesis
    using w(1,3) unfolding standby_inv_def by blast
qed

lemma heading_write_value:
  assumes "4 \<le> length b" and "b ! 0 \<noteq> 0x01" and "cmd_target b = PGN_RM_LOCKED_HEADING"
    and "gf65360_extractMagHeading (drop 4 b) = Some newH" and "norm360 newH = Some v"
  shows "handle_126208_full now w b =
     Some ((snd (apply_rm_selector_or_button w (drop 4 b)))\<lparr>locked_hdg_deg := v\<rparr>)"
  using assms(2-5) unfolding handle_full_unfold [OF assms(1)] by simp

text \<open>
  Three single-frame commands in any state: the Auto selector, a heading write whose
  bytes hold no selector and no button, and the Standby selector.
\<close>

lemma single_frame_command:
  assumes "(d ! 0) AND 0xE0 \<ge> 0xA0" and "length d = 8"
  shows "loop_rx now w \<lparr>identifier' = 0x0DED2101, extd = True, data_length_code = 8, data = d\<rparr>
           = handle_126208_full now w d"
    and "rx_command w \<lparr>identifier' = 0x0DED2101, extd = True, data_length_code = 8, data = d\<rparr>
           = Some d"
  using assms
  by (simp_all add: loop_rx_def rx_command_def extractPGN_def handle_126208_entry_def Let_def
      pgn_defs)

lemma auto_selector_frame:
  assumes "currentMode w = PM_STBY"
  shows "\<exists>w'. handle_126208_full now w [0xA0, 0x63, 0xFF, 0x00, 0x04, 0x04, 0x40, 0xFF] = Some w' \<and>
           currentMode w' = PM_AUTO"
  using assms
  by (simp add: handle_126208_full_def Let_def PGN_RM_PILOT_MODE_def PGN_RM_LOCKED_HEADING_def
      apply_rm_selector_or_button_def selector_loop.simps button_loop.simps
      apply_selector_def selector_mode_def)

lemma standby_selector_frame:
  assumes "currentMode w = PM_AUTO"
  shows "\<exists>w'. handle_126208_full now w [0xA0, 0x63, 0xFF, 0x00, 0x04, 0x04, 0x00, 0xFF] = Some w' \<and>
           currentMode w' = PM_STBY"
  using assms
  by (simp add: handle_126208_full_def Let_def PGN_RM_PILOT_MODE_def PGN_RM_LOCKED_HEADING_def
      apply_rm_selector_or_button_def selector_loop.simps button_loop.simps
      apply_selector_def selector_mode_def)

lemma heading_frame:
  "handle_126208_full now w [0xA0, 0x50, 0xFF, 0x00, 0x06, 0x10, 0x00, 0xFF] =
     Some (w\<lparr>locked_hdg_deg := Fin (6152087 / 67108864)\<rparr>)"
proof -
  let ?b = "[0xA0 :: u8, 0x50, 0xFF, 0x00, 0x06, 0x10, 0x00, 0xFF]"
  have "handle_126208_full now w ?b =
      Some ((snd (apply_rm_selector_or_button w (drop 4 ?b)))
              \<lparr>locked_hdg_deg := Fin (6152087 / 67108864)\<rparr>)"
    using heading_field_16 [of "[0xFF]"] norm360_heading_16
    by (intro heading_write_value) (simp_all add: cmd_target_def PGN_RM_LOCKED_HEADING_def)
  moreover have "apply_rm_selector_or_button w (drop 4 ?b) = (False, w)"
    by (simp add: apply_rm_selector_or_button_def selector_loop.simps button_loop.simps
        apply_button_def)
  ultimately show ?thesis by simp
qed

lemma not_heading_written:
  "\<not> heading_written w \<lparr>identifier' = 0x0DED2101, extd = True, data_length_code = 8,
        data = [0xA0, 0x63, 0xFF, 0x00, 0x04, 0x04, sel, 0xFF]\<rparr>"
  by (simp add: heading_written_def single_frame_command is_heading_write_def cmd_target_def
      PGN_RM_LOCKED_HEADING_def)

theorem standby_locked_heading_nan_witness:
  "no_standby_heading_write initial_world
     [(0, \<lparr>identifier' = 0x0DED2101, extd = True, data_length_code = 8,
           data = [0xA0, 0x63, 0xFF, 0x00, 0x04, 0x04, 0x40, 0xFF]\<rparr>),
      (5, \<lparr>identifier' = 0x0DED2101, extd = True, data_length_code = 8,
           data = [0xA0, 0x50, 0xFF, 0x00, 0x06, 0x10, 0x00, 0xFF]\<rparr>),
      (9, \<lparr>identifier' = 0x0DED2101, extd = True, data_length_code = 8,
           data = [0xA0, 0x63, 0xFF, 0x00, 0x04, 0x04, 0x00, 0xFF]\<rparr>)] \<and>
   heading_written initial_world
     \<lparr>identifier' = 0x0DED2101, extd = True, data_length_code = 8,
      data = [0xA0, 0x50, 0xFF, 0x00, 0x06, 0x10, 0x00, 0xFF]\<rparr> \<and>
   (\<exists>w. run_rx initial_world
     [(0, \<lparr>identifier' = 0x0DED2101, extd = True, data_length_code = 8,
           data = [0xA0, 0x63, 0xFF, 0x00, 0x04, 0x04, 0x40, 0xFF]\<rparr>),
      (5, \<lparr>identifier' = 0x0DED2101, extd = True, data_length_code = 8,
           data = [0xA0, 0x50, 0xFF, 0x00, 0x06, 0x10, 0x00, 0xFF]\<rparr>),
      (9, \<lparr>identifier' = 0x0DED2101, extd = True, data_length_code = 8,
           data = [0xA0, 0x63, 0xFF, 0x00, 0x04, 0x04, 0x00, 0xFF]\<rparr>)] = Some w \<and>
      currentMode w = PM_STBY \<and> isnan (locked_hdg_deg w))"
proof -
  let ?m1 = "\<lparr>identifier' = 0x0DED2101, extd = True, data_length_code = 8,
           data = [0xA0 :: u8, 0x63, 0xFF, 0x00, 0x04, 0x04, 0x40, 0xFF]\<rparr>"
  let ?m2 = "\<lparr>identifier' = 0x0DED2101, extd = True, data_length_code = 8,
           data = [0xA0 :: u8, 0x50, 0xFF, 0x00, 0x06, 0x10, 0x00, 0xFF]\<rparr>"
  let ?m3 = "\<lparr>identifier' = 0x0DED2101, extd = True, data_length_code = 8,
           data = [0xA0 :: u8, 0x63, 0xFF, 0x00, 0x04, 0x04, 0x00, 0xFF]\<rparr>"
  have i: "currentMode initial_world = PM_STBY" by (simp add: initial_world_def)
  obtain w1 where w1: "loop_rx 0 initial_world ?m1 = Some w1" "currentMode w1 = PM_AUTO"
    using auto_selector_frame [OF i, of 0] by (auto simp add: single_frame_command)
  have w2: "loop_rx 5 w1 ?m2 = Some (w1\<lparr>locked_hdg_deg := Fin (6152087 / 67108864)\<rparr>)"
    by (simp add: single_frame_command heading_frame)
  obtain w3 where w3: "loop_rx 9 (w1\<lparr>locked_hdg_deg := Fin (6152087 / 67108864)\<rparr>) ?m3 = Some w3"
      "currentMode w3 = PM_STBY"
    using standby_selector_frame [of "w1\<lparr>locked_hdg_deg := Fin (6152087 / 67108864)\<rparr>" 9] w1(2)
    by (auto simp add: single_frame_command)
  have a: "no_standby_heading_write initial_world [(0, ?m1), (5, ?m2), (9, ?m3)]"
    using w1 w2 w3 by (simp add: not_heading_written)
  have r: "run_rx initial_world [(0, ?m1), (5, ?m2), (9, ?m3)] = Some w3"
    using w1 w2 w3 by simp
  have h: "heading_written initial_world ?m2"
    using heading_field_16 [of "[0xFF]"]
    by (simp add: heading_written_def single_frame_command is_heading_write_def cmd_target_def
        PGN_RM_LOCKED_HEADING_def)
  from standby_locked_heading_nan [OF a] r w3(2) a h show ?thesis
    by auto
qed


text \<open>
  The claim as stated fails on one frame.  In the initial state a single-frame
  write-command to PGN 65360 with the heading field \<^verbatim>\<open>06 10 00\<close> (16 units of 0.0001 rad)
  leaves the mode Standby and sets the locked heading to a finite value.
\<close>

theorem standby_heading_write_counterexample:
  "map_option currentMode
     (run_rx initial_world
        [(0, \<lparr>identifier' = 0x0DED2101, extd = True, data_length_code = 8,
              data = [0xA0, 0x50, 0xFF, 0x00, 0x06, 0x10, 0x00, 0xFF]\<rparr>)]) = Some PM_STBY \<and>
   map_option locked_hdg_deg
     (run_rx initial_world
        [(0, \<lparr>identifier' = 0x0DED2101, extd = True, data_length_code = 8,
              data = [0xA0, 0x50, 0xFF, 0x00, 0x06, 0x10, 0x00, 0xFF]\<rparr>)])
     = Some (Fin (6152087 / 67108864)) \<and>
   \<not> isnan (Fin (6152087 / 67108864))"
proof -
  let ?b = "[0xA0 :: u8, 0x50, 0xFF, 0x00, 0x06, 0x10, 0x00, 0xFF]"
  have r: "run_rx initial_world
        [(0, \<lparr>identifier' = 0x0DED2101, extd = True, data_length_code = 8, data = ?b\<rparr>)]
      = handle_126208_full 0 initial_world ?b"
    by (simp add: loop_rx_def extractPGN_def handle_126208_entry_def Let_def pgn_defs)
  have "handle_126208_full 0 initial_world ?b =
      Some ((snd (apply_rm_selector_or_button initial_world (drop 4 ?b)))
              \<lparr>locked_hdg_deg := Fin (6152087 / 67108864)\<rparr>)"
    using heading_field_16 [of "[0xFF]"] norm360_heading_16
    by (intro heading_write_value) (simp_all add: cmd_target_def PGN_RM_LOCKED_HEADING_def)
  moreover have "currentMode (snd (apply_rm_selector_or_button initial_world (drop 4 ?b)))
      = PM_STBY"
    by code_simp
  ultimately show ?thesis
    unfolding r by (simp add: isnan_def)
qed

section \<open>The locked-heading write\<close>








section \<open>The navigation datagram\<close>

text \<open>
  Claim C8, evaluated.  For cross-track error -0.25 nm, bearing 183.5 degrees, distance
  4.30 nm (the \<^verbatim>\<open>float\<close> nearest to it) and the track flag set, \<^verbatim>\<open>st_send_nav_0x85\<close>
  builds the bytes \<^verbatim>\<open>85 60 19 72 10 1A F7 00 F7\<close>.  The distance 4.31 nm gives the same
  nine bytes: the low four bits of the distance count share a nibble with the two flag
  bits that are set, so the bytes do not determine the distance.
\<close>

theorem st_nav_0x85_literal_bytes:
  "st_nav_0x85_bytes (Fin (- (1 / 4))) (Fin (367 / 2)) (flit (43 / 10)) True =
     Some [0x85, 0x60, 0x19, 0x72, 0x10, 0x1A, 0xF7, 0x00, 0xF7] \<and>
   st_nav_0x85_bytes (Fin (- (1 / 4))) (Fin (367 / 2)) (flit (431 / 100)) True =
     Some [0x85, 0x60, 0x19, 0x72, 0x10, 0x1A, 0xF7, 0x00, 0xF7] \<and>
   flit (43 / 10) \<noteq> flit (431 / 100)"
proof -
  have "flit (43 / 10) = Fin (4508877 / 1048576)"
    using f32_round_eqI [of 152 "43 / 10" 9017754] by (simp add: flit_def)
  moreover have "flit (431 / 100) = Fin (9038725 / 2097152)"
    using f32_round_eqI [of 152 "431 / 100" 9038725] by (simp add: flit_def)
  ultimately have "flit (43 / 10) \<noteq> flit (431 / 100)"
    by simp
  then show ?thesis
    using nav_bytes_430 nav_bytes_431 by simp
qed

section \<open>ISO requests\<close>




end
